theory Spec2Isabelle
  imports Complex_Main "HOL-Library.Word"
begin

section \<open>Quantization codec: decoding the packed prediction (PricePredictor SDK)\<close>

text \<open>
  JavaScript numbers that are integers by construction are modelled as \<open>int\<close>, byte
  buffers as lists of 8-bit words. An exception thrown by the source is a value of
  \<open>error\<close>: \<open>RangeError\<close> is raised by Node's Buffer methods, \<open>InvalidArgument\<close> by the
  on-chain write handler, \<open>TransactionTooLarge\<close> by the transport, \<open>CompileError\<close> by the
  compiler and \<open>SubmissionFailed\<close> by the chain; \<open>SlotTooSmall\<close> and \<open>NodeExceedsBudget\<close>
  are named by the specification only, no code of the repository raises them.
\<close>

type_synonym byte = "8 word"

datatype error =
    RangeError | InvalidArgument | TransactionTooLarge
  | CompileError | SubmissionFailed | SlotTooSmall | NodeExceedsBudget

datatype signal = STRONG_BUY | BUY | HOLD | SELL | STRONG_SELL

text \<open>\<open>Buffer.readInt32LE(offset)\<close>: four bytes, little endian, two's complement;
  Node throws a RangeError when the four bytes are not inside the buffer.\<close>

definition readInt32LE :: "byte list \<Rightarrow> nat \<Rightarrow> error + int" where
  "readInt32LE buf off =
     (if length buf < off + 4 then Inl RangeError
      else Inr (sint (word_of_int (uint (buf ! off) + 256 * uint (buf ! (off + 1))
                  + 65536 * uint (buf ! (off + 2)) + 16777216 * uint (buf ! (off + 3))) :: 32 word)))"

text \<open>JavaScript's \<open>%\<close> on integers: the remainder of the division that truncates towards
  zero, so the result has the sign of the dividend.\<close>

definition js_rem :: "int \<Rightarrow> int \<Rightarrow> int" where
  "js_rem a b = a - b * (sgn a * sgn b * (\<bar>a\<bar> div \<bar>b\<bar>))"

text \<open>\<open>getSignal(direction, confidence)\<close>: a chain of early returns.\<close>

definition getSignal :: "int \<Rightarrow> int \<Rightarrow> signal" where
  "getSignal direction confidence =
     (if confidence < 100 then HOLD
      else if direction > 50 then STRONG_BUY
      else if direction > 0 then BUY
      else if direction < -50 then STRONG_SELL
      else if direction < 0 then SELL
      else HOLD)"

record prediction =
  direction :: int
  rawDirection :: int
  confidence :: int
  signal :: signal

text \<open>\<open>parseResult(returnData)\<close>: \<open>None\<close> as argument is a missing (null or undefined)
  buffer, \<open>None\<close> as result is the \<open>null\<close> the source returns for it.
  \<open>Math.floor(value / 1000)\<close> on a 32-bit integer is the floor division \<open>div\<close>.\<close>

definition parseResult :: "byte list option \<Rightarrow> error + prediction option" where
  "parseResult returnData =
     (case returnData of
        None \<Rightarrow> Inr None
      | Some buf \<Rightarrow>
          (case readInt32LE buf 0 of
             Inl e \<Rightarrow> Inl e
           | Inr v \<Rightarrow>
               let d = v div 1000;
                   c = \<bar>js_rem v 1000\<bar>
               in Inr (Some \<lparr> direction = (if d > 0 then 1 else if d < 0 then -1 else 0),
                               rawDirection = d,
                               confidence = c,
                               signal = getSignal d c \<rparr>)))"

text \<open>\<open>Buffer.writeInt32LE\<close>, used to state the concrete cases: the four bytes of a
  32-bit value, least significant first.\<close>

definition int32LE :: "int \<Rightarrow> byte list" where
  "int32LE v = (let w = (word_of_int v :: 32 word)
                in [ucast w, ucast (drop_bit 8 w), ucast (drop_bit 16 w), ucast (drop_bit 24 w)])"

text \<open>The specification's wording of the signal classification: an ordered rule table,
  the first rule whose test holds gives the signal, \<open>HOLD\<close> when none does.\<close>

definition signal_rules :: "((int \<times> int \<Rightarrow> bool) \<times> signal) list" where
  "signal_rules =
     [(\<lambda>(d, c). c < 100, HOLD),
      (\<lambda>(d, c). d > 50, STRONG_BUY),
      (\<lambda>(d, c). d > 0, BUY),
      (\<lambda>(d, c). d < - 50, STRONG_SELL),
      (\<lambda>(d, c). d < 0, SELL)]"

fun first_rule :: "(('a \<Rightarrow> bool) \<times> signal) list \<Rightarrow> 'a \<Rightarrow> signal" where
  "first_rule [] x = HOLD"
| "first_rule ((test, s) # rules) x = (if test x then s else first_rule rules x)"

section \<open>Quantization codec: feature encoders\<close>

subsection \<open>JavaScript numbers\<close>

text \<open>
  A JavaScript number is an IEEE 754 double: NaN, an infinity, a zero with its sign, or
  another finite value, which is a real number. \<open>Finite 0\<close> is the positive zero and
  \<open>MinusZero\<close> the negative one. A field that an object does not have reads as
  \<open>undefined\<close>, which every arithmetic operator converts to NaN, so a missing field is
  \<open>NotANumber\<close>.
\<close>

datatype jsnum = NotANumber | PlusInfinity | MinusInfinity | MinusZero | Finite real

fun sign_bit :: "jsnum \<Rightarrow> bool" where
  "sign_bit NotANumber = False"
| "sign_bit PlusInfinity = False"
| "sign_bit MinusInfinity = True"
| "sign_bit MinusZero = True"
| "sign_bit (Finite r) = (r < 0)"

fun is_infinite :: "jsnum \<Rightarrow> bool" where
  "is_infinite PlusInfinity = True"
| "is_infinite MinusInfinity = True"
| "is_infinite x = False"

fun is_zero :: "jsnum \<Rightarrow> bool" where
  "is_zero MinusZero = True"
| "is_zero (Finite r) = (r = 0)"
| "is_zero x = False"

text \<open>The real value of a finite number.\<close>

fun real_of :: "jsnum \<Rightarrow> real" where
  "real_of (Finite r) = r"
| "real_of x = 0"

fun signed_zero :: "bool \<Rightarrow> jsnum" where
  "signed_zero negative = (if negative then MinusZero else Finite 0)"

fun signed_infinity :: "bool \<Rightarrow> jsnum" where
  "signed_infinity negative = (if negative then MinusInfinity else PlusInfinity)"

text \<open>
  An arithmetic operator computes the exact result of two finite operands and rounds it to
  a double. The rounding of a real number that is not zero is the parameter \<open>rnd\<close> of the
  operators, and of every function below that computes with them; the cases in which an
  operand is NaN, an infinity or a zero, and the sign of an exact zero sum, are those of
  IEEE 754.
\<close>

type_synonym rounding = "real \<Rightarrow> jsnum"

definition js_add :: "rounding \<Rightarrow> jsnum \<Rightarrow> jsnum \<Rightarrow> jsnum" where
  "js_add rnd a b =
     (if a = NotANumber \<or> b = NotANumber then NotANumber
      else if is_infinite a \<and> is_infinite b then (if a = b then a else NotANumber)
      else if is_infinite a then a
      else if is_infinite b then b
      else if real_of a + real_of b = 0
        then (if a = MinusZero \<and> b = MinusZero then MinusZero else Finite 0)
      else rnd (real_of a + real_of b))"

fun js_neg :: "jsnum \<Rightarrow> jsnum" where
  "js_neg NotANumber = NotANumber"
| "js_neg PlusInfinity = MinusInfinity"
| "js_neg MinusInfinity = PlusInfinity"
| "js_neg MinusZero = Finite 0"
| "js_neg (Finite r) = (if r = 0 then MinusZero else Finite (- r))"

definition js_sub :: "rounding \<Rightarrow> jsnum \<Rightarrow> jsnum \<Rightarrow> jsnum" where
  "js_sub rnd a b = js_add rnd a (js_neg b)"

definition js_mul :: "rounding \<Rightarrow> jsnum \<Rightarrow> jsnum \<Rightarrow> jsnum" where
  "js_mul rnd a b =
     (if a = NotANumber \<or> b = NotANumber then NotANumber
      else if (is_infinite a \<and> is_zero b) \<or> (is_zero a \<and> is_infinite b) then NotANumber
      else if is_infinite a \<or> is_infinite b then signed_infinity (sign_bit a \<noteq> sign_bit b)
      else if is_zero a \<or> is_zero b then signed_zero (sign_bit a \<noteq> sign_bit b)
      else rnd (real_of a * real_of b))"

definition js_div :: "rounding \<Rightarrow> jsnum \<Rightarrow> jsnum \<Rightarrow> jsnum" where
  "js_div rnd a b =
     (if a = NotANumber \<or> b = NotANumber then NotANumber
      else if is_infinite a \<and> is_infinite b then NotANumber
      else if is_zero a \<and> is_zero b then NotANumber
      else if is_infinite a then signed_infinity (sign_bit a \<noteq> sign_bit b)
      else if is_infinite b then signed_zero (sign_bit a \<noteq> sign_bit b)
      else if is_zero b then signed_infinity (sign_bit a \<noteq> sign_bit b)
      else if is_zero a then signed_zero (sign_bit a \<noteq> sign_bit b)
      else rnd (real_of a / real_of b))"

text \<open>The order of the numbers that are not NaN; the two zeros are equal in it.\<close>

fun order_key :: "jsnum \<Rightarrow> int \<times> real" where
  "order_key MinusInfinity = (- 1, 0)"
| "order_key PlusInfinity = (1, 0)"
| "order_key x = (0, real_of x)"

definition num_less :: "jsnum \<Rightarrow> jsnum \<Rightarrow> bool" where
  "num_less a b \<longleftrightarrow>
     fst (order_key a) < fst (order_key b)
     \<or> (fst (order_key a) = fst (order_key b) \<and> snd (order_key a) < snd (order_key b))"

text \<open>The operator \<open>>\<close>: false when an operand is NaN.\<close>

definition js_greater :: "jsnum \<Rightarrow> jsnum \<Rightarrow> bool" where
  "js_greater a b \<longleftrightarrow> a \<noteq> NotANumber \<and> b \<noteq> NotANumber \<and> num_less b a"

text \<open>\<open>Math.min\<close> and \<open>Math.max\<close> of two numbers: NaN when an argument is NaN; the
  negative zero is below the positive one.\<close>

definition Math_min :: "jsnum \<Rightarrow> jsnum \<Rightarrow> jsnum" where
  "Math_min a b =
     (if a = NotANumber \<or> b = NotANumber then NotANumber
      else if num_less b a \<or> (b = MinusZero \<and> a = Finite 0) then b
      else a)"

definition Math_max :: "jsnum \<Rightarrow> jsnum \<Rightarrow> jsnum" where
  "Math_max a b =
     (if a = NotANumber \<or> b = NotANumber then NotANumber
      else if num_less a b \<or> (a = MinusZero \<and> b = Finite 0) then b
      else a)"

text \<open>\<open>Math.floor\<close> and \<open>Math.round\<close> are exact: the result is an integer, which is a
  double. \<open>Math.round\<close> rounds a tie towards plus infinity, and gives the negative zero for
  a number from -0.5 up to the negative zero.\<close>

fun Math_floor :: "jsnum \<Rightarrow> jsnum" where
  "Math_floor (Finite r) = Finite (of_int \<lfloor>r\<rfloor>)"
| "Math_floor x = x"

fun Math_round :: "jsnum \<Rightarrow> jsnum" where
  "Math_round (Finite r) =
     (if r < 0 \<and> \<lfloor>r + 1 / 2\<rfloor> = 0 then MinusZero else Finite (of_int \<lfloor>r + 1 / 2\<rfloor>))"
| "Math_round x = x"

subsection \<open>Rounding to a double\<close>

text \<open>
  The rounding of binary64 arithmetic, round to nearest with ties to even: a real \<open>r\<close>
  with \<open>2 ^ e \<le> \<bar>r\<bar> < 2 ^ (e + 1)\<close> is rounded to a multiple of \<open>2 ^ (e - 52)\<close>, where \<open>e\<close> is
  at least -1022 (below that the doubles are subnormal, multiples of \<open>2 ^ -1074\<close>); a
  result of \<open>2 ^ 1024\<close> is an infinity, and a result of zero keeps the sign of \<open>r\<close>.
\<close>

function bit_length :: "int \<Rightarrow> int" where
  "bit_length n = (if n \<le> 0 then 0 else bit_length (n div 2) + 1)"
  by pat_completeness auto
termination
  by (relation "measure nat") auto

declare bit_length.simps [simp del]

definition pow2 :: "int \<Rightarrow> real" where
  "pow2 e = (if 0 \<le> e then 2 ^ nat e else 1 / 2 ^ nat (- e))"

text \<open>\<open>ilog2 a\<close> is the integer \<open>e\<close> with \<open>2 ^ e \<le> a < 2 ^ (e + 1)\<close>, for \<open>a > 0\<close>.\<close>

definition ilog2 :: "real \<Rightarrow> int" where
  "ilog2 a =
     (if 1 \<le> a then bit_length \<lfloor>a\<rfloor> - 1
      else - bit_length (\<lceil>1 / a\<rceil> - 1))"

definition round_half_even :: "real \<Rightarrow> int" where
  "round_half_even x =
     (if x - of_int \<lfloor>x\<rfloor> < 1 / 2 then \<lfloor>x\<rfloor>
      else if x - of_int \<lfloor>x\<rfloor> > 1 / 2 then \<lfloor>x\<rfloor> + 1
      else if even \<lfloor>x\<rfloor> then \<lfloor>x\<rfloor> else \<lfloor>x\<rfloor> + 1)"

definition round_to_double :: rounding where
  "round_to_double r =
     (if r = 0 then Finite 0
      else
        let q = pow2 (max (ilog2 \<bar>r\<bar>) (- 1022) - 52);
            n = round_half_even (\<bar>r\<bar> / q)
        in if of_int n * q \<ge> pow2 1024 then signed_infinity (r < 0)
           else if n = 0 then signed_zero (r < 0)
           else Finite (if r < 0 then - (of_int n * q) else of_int n * q))"

subsection \<open>The SDK's \<open>normalizeFeatures\<close>\<close>

record marketData =
  vwap :: jsnum
  price :: jsnum
  volumeChange :: jsnum
  bidAskRatio :: jsnum
  md_volatility :: jsnum
  liquidityRatio :: jsnum
  md_momentum :: jsnum

record features =
  vwapRatio :: jsnum
  volumeAccel :: jsnum
  orderbookImbal :: jsnum
  volatility :: jsnum
  liquidity :: jsnum
  momentum :: jsnum

text \<open>\<open>clamp(value)\<close> is \<open>Math.max(0, Math.min(255, value))\<close>.\<close>

definition clamp :: "jsnum \<Rightarrow> jsnum" where
  "clamp v = Math_max (Finite 0) (Math_min (Finite 255) v)"

definition normalizeFeatures :: "rounding \<Rightarrow> marketData \<Rightarrow> features" where
  "normalizeFeatures rnd md =
     \<lparr> vwapRatio = clamp (Math_floor (js_mul rnd (js_div rnd (vwap md) (price md)) (Finite 128))),
       volumeAccel = clamp (Math_floor (js_add rnd (Finite 128) (js_mul rnd (volumeChange md) (Finite 64)))),
       orderbookImbal = clamp (Math_floor (js_add rnd (Finite 128) (js_mul rnd (bidAskRatio md) (Finite 64)))),
       volatility = clamp (Math_floor (js_mul rnd (md_volatility md) (Finite 255))),
       liquidity = clamp (Math_floor (js_mul rnd (liquidityRatio md) (Finite 255))),
       momentum = clamp (Math_floor (js_add rnd (Finite 128) (js_mul rnd (md_momentum md) (Finite 127)))) \<rparr>"

subsection \<open>The data collector's \<open>calculateFeatures\<close>\<close>

text \<open>\<open>calculateFeatures(history)\<close> returns \<open>null\<close> for fewer than four samples and reads
  the last four otherwise. The timestamp and the liquidity indicator are passed through;
  \<open>trend\<close> is a count of at most two times 85.\<close>

record sample =
  timestamp :: int
  pythPrice :: jsnum
  dexPrice :: jsnum
  s_liquidity :: int
  spread :: jsnum

record trainingFeatures =
  tf_timestamp :: int
  tf_pythPrice :: jsnum
  tf_dexPrice :: jsnum
  priceVsSma :: jsnum
  tf_momentum :: jsnum
  tf_volatility :: jsnum
  tf_liquidity :: int
  spreadFeature :: jsnum
  trend :: int

definition calculateFeatures :: "rounding \<Rightarrow> sample list \<Rightarrow> trainingFeatures option" where
  "calculateFeatures rnd history =
     (if length history < 4 then None
      else
        let current = history ! (length history - 1);
            prev1 = history ! (length history - 2);
            prev2 = history ! (length history - 3);
            prev3 = history ! (length history - 4);
            sma = js_div rnd
                    (js_add rnd (js_add rnd (js_add rnd (pythPrice current) (pythPrice prev1))
                       (pythPrice prev2)) (pythPrice prev3))
                    (Finite 4);
            range = js_sub rnd
                      (Math_max (Math_max (Math_max (pythPrice current) (pythPrice prev1))
                         (pythPrice prev2)) (pythPrice prev3))
                      (Math_min (Math_min (Math_min (pythPrice current) (pythPrice prev1))
                         (pythPrice prev2)) (pythPrice prev3));
            ups = (if js_greater (pythPrice current) (pythPrice prev1) then 1 else 0)
                + (if js_greater (pythPrice prev1) (pythPrice prev2) then 1 else 0)
        in Some
             \<lparr> tf_timestamp = timestamp current,
               tf_pythPrice = pythPrice current,
               tf_dexPrice = dexPrice current,
               priceVsSma = Math_max (Finite 0) (Math_min (Finite 255) (Math_round
                  (js_add rnd (Finite 128)
                     (js_mul rnd (js_div rnd (js_sub rnd (pythPrice current) sma) sma) (Finite 100))))),
               tf_momentum = Math_max (Finite 0) (Math_min (Finite 255) (Math_round
                  (js_add rnd (Finite 128)
                     (js_mul rnd (js_div rnd (js_sub rnd (pythPrice current) (pythPrice prev3))
                        (pythPrice prev3)) (Finite 100))))),
               tf_volatility = Math_max (Finite 0) (Math_min (Finite 255) (Math_round
                  (js_mul rnd (js_div rnd range sma) (Finite 1000)))),
               tf_liquidity = s_liquidity current,
               spreadFeature = Math_max (Finite 0) (Math_min (Finite 255) (Math_round
                  (js_add rnd (Finite 128) (spread current)))),
               trend = ups * 85 \<rparr>)"

subsection \<open>The encoders in closed form\<close>

text \<open>The specification's clamp of an integer to a range.\<close>

definition spec_clamp :: "int \<Rightarrow> int \<Rightarrow> int \<Rightarrow> int" where
  "spec_clamp x lo hi = (if x < lo then lo else if x > hi then hi else x)"

text \<open>The encoding of a scaled value \<open>s\<close> by rounding down and clamping, and by rounding
  to the nearest integer and clamping as the specification's \<open>encodeCentered\<close> and
  \<open>encodeMagnitude\<close> word it. An infinity saturates; for NaN there is no byte.\<close>

fun floor_clamp :: "jsnum \<Rightarrow> jsnum" where
  "floor_clamp (Finite x) = Finite (of_int (spec_clamp \<lfloor>x\<rfloor> 0 255))"
| "floor_clamp MinusZero = Finite 0"
| "floor_clamp PlusInfinity = Finite 255"
| "floor_clamp MinusInfinity = Finite 0"
| "floor_clamp NotANumber = NotANumber"

fun spec_round_clamp :: "jsnum \<Rightarrow> jsnum" where
  "spec_round_clamp (Finite x) = Finite (of_int (spec_clamp (round x) 0 255))"
| "spec_round_clamp MinusZero = Finite 0"
| "spec_round_clamp PlusInfinity = Finite 255"
| "spec_round_clamp MinusInfinity = Finite 0"
| "spec_round_clamp NotANumber = NotANumber"

section \<open>Chunked payload writer (deploy script)\<close>

text \<open>
  The storage slot is a Solana account: a byte array of fixed length. The deploy script
  writes to it by sending instructions \<open>[0x03, offset_lo, offset_hi, data...]\<close> to the
  on-chain program. The state of the model is the account's data, the transport's size
  limit and the list of instructions submitted so far.
\<close>

definition MODE_WRITE_ACCOUNT :: byte where
  "MODE_WRITE_ACCOUNT = 3"

record instruction =
  isWritable :: bool
  ix_data :: "byte list"

record chain =
  account_data :: "byte list"
  transportLimit :: nat
  submitted :: "instruction list"

text \<open>The fields of a write instruction, as the on-chain handler reads them:
  \<open>offset = data[1] | (data[2] << 8)\<close> and \<open>payload = data + 3\<close>.\<close>

definition ix_offset :: "instruction \<Rightarrow> nat" where
  "ix_offset ix = unat (ix_data ix ! 1) + 256 * unat (ix_data ix ! 2)"

definition ix_payload :: "instruction \<Rightarrow> byte list" where
  "ix_payload ix = drop 3 (ix_data ix)"

text \<open>The handler of \<open>MODE_WRITE_ACCOUNT\<close> in the on-chain program, from the C code that the
  repository's README gives for it: it rejects an instruction shorter than three bytes, an
  account that is not writable and a write that does not end inside the account, and
  copies the payload to the offset otherwise.\<close>

definition write_account_handler :: "instruction \<Rightarrow> byte list \<Rightarrow> error + byte list" where
  "write_account_handler ix acct =
     (if length (ix_data ix) < 3 then Inl InvalidArgument
      else if \<not> isWritable ix then Inl InvalidArgument
      else if ix_offset ix + length (ix_payload ix) > length acct then Inl InvalidArgument
      else Inr (take (ix_offset ix) acct @ ix_payload ix
                @ drop (ix_offset ix + length (ix_payload ix)) acct))"

text \<open>Modelled from the spec: the execution substrate behind \<open>sendAndConfirmTransaction\<close>,
  which is a library call and not part of the repository's sources. A submitted unit is
  atomic: it applies its write or fails and changes nothing; the transport refuses a
  payload longer than its limit. The result is the thrown error, if any, and the new
  state; every submission is recorded in \<open>submitted\<close>.\<close>

definition sendAndConfirmTransaction :: "chain \<Rightarrow> instruction \<Rightarrow> error option \<times> chain" where
  "sendAndConfirmTransaction c ix =
     (let c' = c\<lparr>submitted := submitted c @ [ix]\<rparr>
      in if length (ix_payload ix) > transportLimit c then (Some TransactionTooLarge, c')
         else (case write_account_handler ix (account_data c) of
                 Inl e \<Rightarrow> (Some e, c')
               | Inr d \<Rightarrow> (None, c'\<lparr>account_data := d\<rparr>)))"

text \<open>\<open>Buffer.writeUInt16LE(value)\<close> on a buffer of two bytes: Node throws a RangeError
  for a value above 65535.\<close>

definition writeUInt16LE :: "nat \<Rightarrow> error + byte list" where
  "writeUInt16LE v =
     (if v > 65535 then Inl RangeError else Inr [word_of_nat v, word_of_nat (v div 256)])"

text \<open>\<open>writeAccountDirect(connection, payer, programId, account, data, offset)\<close>.\<close>

definition writeAccountDirect :: "chain \<Rightarrow> byte list \<Rightarrow> nat \<Rightarrow> error option \<times> chain" where
  "writeAccountDirect c data offset =
     (case writeUInt16LE offset of
        Inl e \<Rightarrow> (Some e, c)
      | Inr offsetBuf \<Rightarrow>
          sendAndConfirmTransaction c
            \<lparr> isWritable = True, ix_data = [MODE_WRITE_ACCOUNT] @ offsetBuf @ data \<rparr>)"

text \<open>\<open>Buffer.slice(start, end)\<close> for \<open>0 \<le> start \<le> end\<close>: both ends are cut to the length of
  the buffer.\<close>

definition slice_buf :: "'a list \<Rightarrow> nat \<Rightarrow> nat \<Rightarrow> 'a list" where
  "slice_buf xs start end = take (end - start) (drop start xs)"

text \<open>\<open>Math.ceil(data.length / chunkSize)\<close> for a length and a chunk size that are natural
  numbers: a division by zero gives \<open>Infinity\<close>, and \<open>NaN\<close> for 0 / 0. The loop test
  \<open>i < numChunks\<close> always holds for \<open>Infinity\<close> and never for \<open>NaN\<close>.\<close>

datatype jscount = Count nat | Infinity | NaN

definition ceil_div :: "nat \<Rightarrow> nat \<Rightarrow> jscount" where
  "ceil_div n d =
     (if d = 0 then (if n = 0 then NaN else Infinity)
      else Count (nat \<lceil>real n / real d\<rceil>))"

fun js_less :: "nat \<Rightarrow> jscount \<Rightarrow> bool" where
  "js_less i (Count n) = (i < n)"
| "js_less i Infinity = True"
| "js_less i NaN = False"

text \<open>The loop of \<open>writeToAccountChunked\<close>. A thrown error leaves the loop and the
  function; with \<open>numChunks = Infinity\<close> the loop may run forever, which is the value
  \<open>None\<close>.\<close>

partial_function (option) chunk_loop ::
  "byte list \<Rightarrow> nat \<Rightarrow> jscount \<Rightarrow> nat \<Rightarrow> chain \<Rightarrow> (error option \<times> chain) option" where
  "chunk_loop data chunkSize numChunks i c =
     (if js_less i numChunks then
        (let offset = i * chunkSize;
             chunk = slice_buf data offset (offset + chunkSize)
         in case writeAccountDirect c chunk offset of
              (Some e, c') \<Rightarrow> Some (Some e, c')
            | (None, c') \<Rightarrow> chunk_loop data chunkSize numChunks (i + 1) c')
      else Some (None, c))"

declare chunk_loop.simps [code]

definition writeToAccountChunked ::
  "chain \<Rightarrow> byte list \<Rightarrow> nat \<Rightarrow> (error option \<times> chain) option" where
  "writeToAccountChunked c data chunkSize =
     chunk_loop data chunkSize (ceil_div (length data) chunkSize) 0 c"

text \<open>The instruction that carries chunk \<open>i\<close>, and the account after the first \<open>j\<close> chunks
  have been written over the data \<open>acct\<close>.\<close>

definition chunk_ix :: "byte list \<Rightarrow> nat \<Rightarrow> nat \<Rightarrow> instruction" where
  "chunk_ix data chunkSize i =
     \<lparr> isWritable = True,
       ix_data = [MODE_WRITE_ACCOUNT, word_of_nat (i * chunkSize), word_of_nat (i * chunkSize div 256)]
                 @ slice_buf data (i * chunkSize) (i * chunkSize + chunkSize) \<rparr>"

definition written :: "byte list \<Rightarrow> nat \<Rightarrow> nat \<Rightarrow> byte list \<Rightarrow> byte list" where
  "written data chunkSize j acct =
     take (min (j * chunkSize) (length data)) data @ drop (min (j * chunkSize) (length data)) acct"

section \<open>Sequencing the execution units (crank script)\<close>

text \<open>
  \<open>runCrankCycle\<close> runs the accumulator scripts in order: it compiles each one and
  submits it as one transaction. The compiler and the chain are outside the repository;
  they are parameters of the model: \<open>compilePython\<close> returns the bytecode of a file or
  throws, and \<open>confirm\<close> answers a submitted transaction, given the transactions submitted
  before it, with a signature or throws.
\<close>

text \<open>A script of the list \<open>ACCUMULATOR_SCRIPTS\<close>; its field \<open>file\<close> is \<open>script_file\<close> here.\<close>

record script =
  name :: string
  script_file :: string
  accounts :: "string list"

definition ACCUMULATOR_SCRIPTS :: "script list" where
  "ACCUMULATOR_SCRIPTS =
     [\<lparr>name = ''accum_v2_p1'', script_file = ''src/python/accum_v2_p1.py'',
        accounts = [''pyth'', ''accumulator'']\<rparr>,
      \<lparr>name = ''acc_sma'', script_file = ''src/python/acc_sma.py'', accounts = [''accumulator'']\<rparr>,
      \<lparr>name = ''acc_vol_a'', script_file = ''src/python/acc_vol_a.py'', accounts = [''accumulator'']\<rparr>,
      \<lparr>name = ''acc_mom'', script_file = ''src/python/acc_mom.py'', accounts = [''accumulator'']\<rparr>,
      \<lparr>name = ''acc_ray_liq'', script_file = ''src/python/acc_ray_liq.py'',
        accounts = [''raydium_sol'', ''accumulator'']\<rparr>,
      \<lparr>name = ''acc_dex_price'', script_file = ''src/python/acc_dex_price.py'',
        accounts = [''raydium_sol'', ''raydium_usdc'', ''accumulator'']\<rparr>,
      \<lparr>name = ''acc_spread'', script_file = ''src/python/acc_spread.py'', accounts = [''accumulator'']\<rparr>]"

definition MODE_EXECUTE_BYTECODE :: byte where
  "MODE_EXECUTE_BYTECODE = 2"

text \<open>A public key is its base-58 string; looking up a name that the account map does
  not have gives \<open>undefined\<close>, here \<open>None\<close>. An account key of the instruction is the public
  key with the flags \<open>isSigner\<close> and \<open>isWritable\<close>.\<close>

type_synonym pubkey = string

record transaction =
  keys :: "(pubkey option \<times> bool \<times> bool) list"
  tx_data :: "byte list"

record crank_env =
  compilePython :: "string \<Rightarrow> error + byte list"
  confirm :: "transaction list \<Rightarrow> transaction \<Rightarrow> error + string"

text \<open>What the run leaves behind: the transactions submitted, in order, and the lines
  written to the console.\<close>

datatype console_line =
    Running
  | Started string
  | Confirmed string
  | Failed string error

record crank_world =
  sent :: "transaction list"
  console :: "console_line list"

text \<open>The transaction that \<open>executePythonScript\<close> builds: the mode byte, the length of
  the bytecode in two bytes, the bytecode; the last account is the writable one.\<close>

definition script_transaction :: "byte list \<Rightarrow> pubkey option list \<Rightarrow> transaction" where
  "script_transaction bytecode accountPubkeys =
     \<lparr> keys = map (\<lambda>(i, pk). (pk, False, i = length accountPubkeys - 1))
                  (enumerate 0 accountPubkeys),
       tx_data = [MODE_EXECUTE_BYTECODE, word_of_nat (length bytecode),
                  word_of_nat (length bytecode div 256)] @ bytecode \<rparr>"

definition executePythonScript ::
  "crank_env \<Rightarrow> crank_world \<Rightarrow> byte list \<Rightarrow> pubkey option list \<Rightarrow> (error + string) \<times> crank_world" where
  "executePythonScript env w bytecode accountPubkeys =
     (let tx = script_transaction bytecode accountPubkeys
      in (confirm env (sent w) tx, w\<lparr>sent := sent w @ [tx]\<rparr>))"

text \<open>The body of the loop of \<open>runCrankCycle\<close>: a \<open>try\<close> whose \<open>catch\<close> writes a line to the
  console and lets the loop go on.\<close>

definition crank_step ::
  "crank_env \<Rightarrow> (string \<Rightarrow> pubkey option) \<Rightarrow> script \<Rightarrow> crank_world \<Rightarrow> crank_world" where
  "crank_step env accountMap s w =
     (case compilePython env (script_file s) of
        Inl e \<Rightarrow> w\<lparr>console := console w @ [Failed (name s) e]\<rparr>
      | Inr bytecode \<Rightarrow>
          let accountPubkeys = map accountMap (accounts s);
              w1 = w\<lparr>console := console w @ [Started (name s)]\<rparr>
          in (case executePythonScript env w1 bytecode accountPubkeys of
                (Inl e, w2) \<Rightarrow> w2\<lparr>console := console w2 @ [Failed (name s) e]\<rparr>
              | (Inr sig, w2) \<Rightarrow> w2\<lparr>console := console w2 @ [Confirmed (take 20 sig)]\<rparr>))"

fun crank_loop ::
  "crank_env \<Rightarrow> (string \<Rightarrow> pubkey option) \<Rightarrow> script list \<Rightarrow> crank_world \<Rightarrow> crank_world" where
  "crank_loop env accountMap [] w = w"
| "crank_loop env accountMap (s # scripts) w =
     crank_loop env accountMap scripts (crank_step env accountMap s w)"

text \<open>\<open>runCrankCycle\<close> returns no value; the model returns the world after the run.\<close>

definition runCrankCycle ::
  "crank_env \<Rightarrow> (string \<Rightarrow> pubkey option) \<Rightarrow> crank_world \<Rightarrow> crank_world" where
  "runCrankCycle env accountMap w =
     crank_loop env accountMap ACCUMULATOR_SCRIPTS (w\<lparr>console := console w @ [Running]\<rparr>)"

text \<open>The transactions of the scripts that compile, in the order of the scripts.\<close>

fun compiled_transactions ::
  "(string \<Rightarrow> error + byte list) \<Rightarrow> (string \<Rightarrow> pubkey option) \<Rightarrow> script list \<Rightarrow> transaction list" where
  "compiled_transactions compile accountMap [] = []"
| "compiled_transactions compile accountMap (s # scripts) =
     (case compile (script_file s) of
        Inl e \<Rightarrow> compiled_transactions compile accountMap scripts
      | Inr bytecode \<Rightarrow>
          script_transaction bytecode (map accountMap (accounts s))
            # compiled_transactions compile accountMap scripts)"

text \<open>An environment for the examples: every file compiles to the one byte 1, and the
  chain rejects every transaction.\<close>

definition rejecting_env :: crank_env where
  "rejecting_env = \<lparr> compilePython = (\<lambda>f. Inr [1]), confirm = (\<lambda>before tx. Inl SubmissionFailed) \<rparr>"

definition demo_accounts :: "string \<Rightarrow> pubkey option" where
  "demo_accounts = [''pyth'' \<mapsto> ''P'', ''raydium_sol'' \<mapsto> ''S'', ''raydium_usdc'' \<mapsto> ''U'',
                    ''accumulator'' \<mapsto> ''A'']"

section \<open>Unit partitioner\<close>

text \<open>
  Modelled from the spec: the Unit Partitioner (\<open>partition(nodes, limits)\<close>), which the
  repository's sources do not contain. The definitions follow the words of the
  specification: greedy packing in node order; a new unit is started, nodes are
  accumulated while \<open>runningBytes + node.bytes \<le> maxBytes\<close> and
  \<open>runningCompute + node.compute \<le> maxCompute\<close>; when either would overflow, the current
  unit is closed and a new one is started with that node; a node whose own cost exceeds a
  limit surfaces \<open>NodeExceedsBudget\<close>. The output is the ordered list of groups
  \<open>(nodeSubset, estimatedBytes, estimatedCompute)\<close>.
\<close>

record node =
  node_id :: nat
  estimatedCompiledBytes :: nat
  estimatedComputeCost :: nat

record unitGroup =
  nodeSubset :: "node list"
  estimatedBytes :: nat
  estimatedCompute :: nat

fun pack :: "nat \<Rightarrow> nat \<Rightarrow> unitGroup \<Rightarrow> node list \<Rightarrow> error + unitGroup list" where
  "pack maxBytes maxCompute current [] =
     Inr (if nodeSubset current = [] then [] else [current])"
| "pack maxBytes maxCompute current (n # nodes) =
     (if estimatedCompiledBytes n > maxBytes \<or> estimatedComputeCost n > maxCompute
        then Inl NodeExceedsBudget
      else if estimatedBytes current + estimatedCompiledBytes n \<le> maxBytes
            \<and> estimatedCompute current + estimatedComputeCost n \<le> maxCompute
        then pack maxBytes maxCompute
               \<lparr> nodeSubset = nodeSubset current @ [n],
                 estimatedBytes = estimatedBytes current + estimatedCompiledBytes n,
                 estimatedCompute = estimatedCompute current + estimatedComputeCost n \<rparr> nodes
      else (case pack maxBytes maxCompute
                   \<lparr> nodeSubset = [n], estimatedBytes = estimatedCompiledBytes n,
                     estimatedCompute = estimatedComputeCost n \<rparr> nodes of
              Inl e \<Rightarrow> Inl e
            | Inr units \<Rightarrow> Inr (current # units)))"

definition partition_nodes :: "node list \<Rightarrow> nat \<times> nat \<Rightarrow> error + unitGroup list" where
  "partition_nodes nodes limits =
     pack (fst limits) (snd limits)
       \<lparr> nodeSubset = [], estimatedBytes = 0, estimatedCompute = 0 \<rparr> nodes"

text \<open>A group whose estimates are the sums over its nodes and stay within the limits.\<close>

definition well_formed :: "nat \<Rightarrow> nat \<Rightarrow> unitGroup \<Rightarrow> bool" where
  "well_formed mb mc u \<longleftrightarrow>
     estimatedBytes u = sum_list (map estimatedCompiledBytes (nodeSubset u))
   \<and> estimatedCompute u = sum_list (map estimatedComputeCost (nodeSubset u))
   \<and> estimatedBytes u \<le> mb \<and> estimatedCompute u \<le> mc"


section \<open>Properties\<close>

subsection \<open>Reading a 32-bit little-endian integer\<close>

lemma base256_digits:
  fixes x :: int
  assumes "0 \<le> x" "x < 4294967296"
  shows "x mod 256 + 256 * (x div 256 mod 256) + 65536 * (x div 65536 mod 256)
       + 16777216 * (x div 16777216 mod 256) = x"
proof -
  define a where "a = x div 256"
  define b where "b = a div 256"
  define c where "c = b div 256"
  have xa: "x = x mod 256 + 256 * a" by (simp add: a_def)
  have ab: "a = a mod 256 + 256 * b" by (simp add: b_def)
  have bc: "b = b mod 256 + 256 * c" by (simp add: c_def)
  have b': "x div 65536 = b" by (simp add: a_def b_def div_mult2_eq [symmetric])
  have c': "x div 16777216 = c" by (simp add: a_def b_def c_def div_mult2_eq [symmetric])
  have "0 \<le> c" "c < 256"
    using assms unfolding c' [symmetric] by (simp_all add: pos_imp_zdiv_nonneg_iff)
  then have cm: "c mod 256 = c" by simp
  show ?thesis unfolding b' c' cm a_def [symmetric] using xa ab bc by linarith
qed

lemma uint_byte_of_word32:
  fixes w :: "32 word"
  shows "uint (ucast (drop_bit n w) :: byte) = uint w div 2 ^ n mod 256"
proof -
  have m: "uint w mod 4294967296 = uint w"
    using uint_bounded [of w] by simp
  show ?thesis
    by (simp only: unsigned_ucast_eq unsigned_drop_bit_eq)
       (simp add: m take_bit_eq_mod drop_bit_eq_div)
qed

lemma bytes_of_word32:
  fixes w :: "32 word"
  shows "uint (ucast w :: byte) + 256 * uint (ucast (drop_bit 8 w) :: byte)
       + 65536 * uint (ucast (drop_bit 16 w) :: byte)
       + 16777216 * uint (ucast (drop_bit 24 w) :: byte) = uint w"
proof -
  have b: "uint w < 4294967296" using uint_bounded [of w] by simp
  have 1: "uint (ucast w :: byte) = uint w mod 256"
    by (simp add: take_bit_eq_mod unsigned_ucast_eq)
  have 2: "uint (ucast (drop_bit 8 w) :: byte) = uint w div 256 mod 256"
    using uint_byte_of_word32 [of 8 w] by simp
  have 3: "uint (ucast (drop_bit 16 w) :: byte) = uint w div 65536 mod 256"
    using uint_byte_of_word32 [of 16 w] by simp
  have 4: "uint (ucast (drop_bit 24 w) :: byte) = uint w div 16777216 mod 256"
    using uint_byte_of_word32 [of 24 w] by simp
  have 0: "0 \<le> uint w" by simp
  show ?thesis
    unfolding 1 2 3 4 by (rule base256_digits [OF 0 b])
qed

lemma readInt32LE_int32LE:
  assumes "- (2 ^ 31) \<le> v" "v < 2 ^ 31"
  shows "readInt32LE (int32LE v) 0 = Inr v"
proof -
  have s: "sint (word_of_int v :: 32 word) = v"
    using assms by (simp add: sint_sbintrunc' signed_take_bit_int_eq_self)
  have "readInt32LE (int32LE v) 0
      = Inr (sint (word_of_int (uint (word_of_int v :: 32 word)) :: 32 word))"
    unfolding readInt32LE_def int32LE_def Let_def
    by (simp add: bytes_of_word32 del: of_int_uint)
  then show ?thesis using s by simp
qed

lemma readInt32LE_range:
  assumes "readInt32LE buf off = Inr v"
  shows "- (2 ^ 31) \<le> v \<and> v < 2 ^ 31"
proof -
  from assms obtain w :: "32 word" where "v = sint w"
    by (auto simp: readInt32LE_def split: if_splits)
  then show ?thesis
    using sint_ge [of w] sint_lt [of w] by simp
qed

lemma readInt32LE_total:
  "off + 4 \<le> length buf \<Longrightarrow> \<exists>v. readInt32LE buf off = Inr v"
  by (simp add: readInt32LE_def)

subsection \<open>Truncating remainder and floor division\<close>

lemma js_rem_1000: "\<bar>js_rem v 1000\<bar> = \<bar>v\<bar> mod 1000"
proof (cases "0 \<le> v")
  case True
  then show ?thesis
    by (cases "v = 0") (simp_all add: js_rem_def minus_mult_div_eq_mod)
next
  case False
  then have "js_rem v 1000 = - (\<bar>v\<bar> mod 1000)"
    by (simp add: js_rem_def minus_mult_div_eq_mod [symmetric])
  then show ?thesis by simp
qed

lemma floor_div_1000: "\<lfloor>real_of_int v / 1000\<rfloor> = v div 1000"
  using floor_divide_of_int_eq [of v 1000, where ?'a = real] by simp

lemma parseResult_of_value:
  assumes "readInt32LE buf 0 = Inr v"
  shows "parseResult (Some buf) =
           Inr (Some \<lparr> direction = sgn (v div 1000), rawDirection = v div 1000,
                        confidence = \<bar>v\<bar> mod 1000,
                        signal = getSignal (v div 1000) (\<bar>v\<bar> mod 1000) \<rparr>)"
  using assms by (simp add: parseResult_def Let_def js_rem_1000 sgn_if)

subsection \<open>Signal classification\<close>

text \<open>
  Claim C6. For every integer direction and every confidence, \<open>getSignal\<close> classifies by
  the ordered rules of the specification: confidence below 100 gives \<open>HOLD\<close>; otherwise
  direction above 50 gives \<open>STRONG_BUY\<close>, above 0 \<open>BUY\<close>, below \<open>-50\<close> \<open>STRONG_SELL\<close>, below 0
  \<open>SELL\<close>, and \<open>HOLD\<close> remains. The source's chain of early returns computes the first
  matching rule of the table \<open>signal_rules\<close>; the confidence gate comes before every
  direction test, so a low confidence gives \<open>HOLD\<close> whatever the direction is, and each
  signal is characterised by the region of inputs that reaches it.
\<close>

theorem getSignal_rule_order:
  "getSignal d c = first_rule signal_rules (d, c)
   \<and> (c < 100 \<longrightarrow> getSignal d c = HOLD)
   \<and> (getSignal d c = STRONG_BUY \<longleftrightarrow> 100 \<le> c \<and> 50 < d)
   \<and> (getSignal d c = BUY \<longleftrightarrow> 100 \<le> c \<and> 0 < d \<and> d \<le> 50)
   \<and> (getSignal d c = STRONG_SELL \<longleftrightarrow> 100 \<le> c \<and> d < - 50)
   \<and> (getSignal d c = SELL \<longleftrightarrow> 100 \<le> c \<and> - 50 \<le> d \<and> d < 0)
   \<and> (getSignal d c = HOLD \<longleftrightarrow> c < 100 \<or> d = 0)"
  by (simp add: getSignal_def signal_rules_def)

theorem getSignal_rule_order_witness:
  "(99 :: int) < 100 \<and> getSignal 60 99 = HOLD \<and> getSignal 60 100 = STRONG_BUY"
proof -
  have g: "(99 :: int) < 100" by simp
  have "getSignal 60 99 = HOLD"
    using getSignal_rule_order [where d = 60 and c = 99] g by blast
  moreover have "(getSignal 60 100 = STRONG_BUY) = ((100 :: int) \<le> 100 \<and> (50 :: int) < 60)"
    using getSignal_rule_order [where d = 60 and c = 100] by blast
  then have "getSignal 60 100 = STRONG_BUY" by simp
  ultimately show ?thesis using g by blast
qed

subsection \<open>Decoding the packed prediction\<close>

text \<open>
  Claim C1, as amended. The source computes the quotient \<open>Math.floor(value / 1000)\<close> in its
  local variable \<open>direction\<close>, classifies the signal from it, and returns it in the field
  \<open>rawDirection\<close>; the field \<open>direction\<close> of the returned object holds the sign of the
  quotient only. With the quotient read from \<open>rawDirection\<close> the concrete cases hold:
  21184 decodes to quotient 21, confidence 184, signal \<open>BUY\<close>; -75123 to quotient -76,
  confidence 123, \<open>STRONG_SELL\<close>; 500 to 0, 500, \<open>HOLD\<close>; 99 to 0, 99, \<open>HOLD\<close>. For every
  32-bit value the quotient is the floor of value / 1000 and the confidence is the absolute
  value of the truncating remainder, which is \<open>\<bar>value\<bar> mod 1000\<close>.
\<close>

theorem parseResult_decode:
  "parseResult (Some (int32LE 21184)) =
     Inr (Some \<lparr> direction = 1, rawDirection = 21, confidence = 184, signal = BUY \<rparr>)
   \<and> parseResult (Some (int32LE (- 75123))) =
     Inr (Some \<lparr> direction = - 1, rawDirection = - 76, confidence = 123, signal = STRONG_SELL \<rparr>)
   \<and> parseResult (Some (int32LE 500)) =
     Inr (Some \<lparr> direction = 0, rawDirection = 0, confidence = 500, signal = HOLD \<rparr>)
   \<and> parseResult (Some (int32LE 99)) =
     Inr (Some \<lparr> direction = 0, rawDirection = 0, confidence = 99, signal = HOLD \<rparr>)
   \<and> (\<forall>v. - (2 ^ 31) \<le> v \<and> v < 2 ^ 31 \<longrightarrow>
         (\<exists>p. parseResult (Some (int32LE v)) = Inr (Some p)
            \<and> rawDirection p = \<lfloor>real_of_int v / 1000\<rfloor>
            \<and> confidence p = \<bar>js_rem v 1000\<bar>
            \<and> confidence p = \<bar>v\<bar> mod 1000
            \<and> signal p = getSignal (rawDirection p) (confidence p)
            \<and> direction p = sgn (rawDirection p)))"
proof -
  have c: "parseResult (Some (int32LE 21184)) =
     Inr (Some \<lparr> direction = 1, rawDirection = 21, confidence = 184, signal = BUY \<rparr>)"
   "parseResult (Some (int32LE (- 75123))) =
     Inr (Some \<lparr> direction = - 1, rawDirection = - 76, confidence = 123, signal = STRONG_SELL \<rparr>)"
   "parseResult (Some (int32LE 500)) =
     Inr (Some \<lparr> direction = 0, rawDirection = 0, confidence = 500, signal = HOLD \<rparr>)"
   "parseResult (Some (int32LE 99)) =
     Inr (Some \<lparr> direction = 0, rawDirection = 0, confidence = 99, signal = HOLD \<rparr>)"
    by (simp_all add: parseResult_def readInt32LE_def int32LE_def js_rem_def getSignal_def)
  have g: "\<exists>p. parseResult (Some (int32LE v)) = Inr (Some p)
            \<and> rawDirection p = \<lfloor>real_of_int v / 1000\<rfloor>
            \<and> confidence p = \<bar>js_rem v 1000\<bar>
            \<and> confidence p = \<bar>v\<bar> mod 1000
            \<and> signal p = getSignal (rawDirection p) (confidence p)
            \<and> direction p = sgn (rawDirection p)"
    if "- (2 ^ 31) \<le> v" "v < 2 ^ 31" for v
    using parseResult_of_value [OF readInt32LE_int32LE [OF that]]
    by (simp add: floor_div_1000 js_rem_1000)
  show ?thesis using c g by blast
qed

theorem parseResult_decode_witness:
  "- (2 ^ 31) \<le> (- 75123 :: int) \<and> (- 75123 :: int) < 2 ^ 31
   \<and> (\<exists>p. parseResult (Some (int32LE (- 75123))) = Inr (Some p)
          \<and> rawDirection p = - 76 \<and> confidence p = 123 \<and> signal p = STRONG_SELL)"
proof -
  have r: "- (2 ^ 31) \<le> (- 75123 :: int) \<and> (- 75123 :: int) < 2 ^ 31" by simp
  from parseResult_decode have
    "\<forall>v. - (2 ^ 31) \<le> v \<and> v < 2 ^ 31 \<longrightarrow>
         (\<exists>p. parseResult (Some (int32LE v)) = Inr (Some p)
            \<and> rawDirection p = \<lfloor>real_of_int v / 1000\<rfloor>
            \<and> confidence p = \<bar>js_rem v 1000\<bar>
            \<and> confidence p = \<bar>v\<bar> mod 1000
            \<and> signal p = getSignal (rawDirection p) (confidence p)
            \<and> direction p = sgn (rawDirection p))"
    by blast
  with r obtain p where p: "parseResult (Some (int32LE (- 75123))) = Inr (Some p)"
     "rawDirection p = \<lfloor>real_of_int (- 75123) / 1000\<rfloor>"
     "confidence p = \<bar>- 75123\<bar> mod 1000"
     "signal p = getSignal (rawDirection p) (confidence p)"
    by blast
  have "rawDirection p = - 76" using p(2) by (simp add: floor_div_1000)
  moreover have "confidence p = 123" using p(3) by simp
  ultimately have "signal p = STRONG_SELL" using p(4) by (simp add: getSignal_def)
  with p(1) \<open>rawDirection p = - 76\<close> \<open>confidence p = 123\<close> r show ?thesis by blast
qed

text \<open>
  The claim as the specification words it fails on the field named \<open>direction\<close>: decoding
  21184 gives an object whose \<open>direction\<close> is 1, not 21.
\<close>

theorem parseResult_direction_counterexample:
  "parseResult (Some (int32LE 21184)) =
     Inr (Some \<lparr> direction = 1, rawDirection = 21, confidence = 184, signal = BUY \<rparr>)
   \<and> direction \<lparr> direction = 1, rawDirection = 21, confidence = 184, signal = BUY \<rparr> \<noteq> 21"
  by (simp add: parseResult_def readInt32LE_def int32LE_def js_rem_def getSignal_def)

text \<open>
  Claim C10. For every 4-byte return buffer, \<open>parseResult\<close> decodes a 32-bit value and
  returns an object whose \<open>direction\<close> field is the sign of \<open>\<lfloor>value / 1000\<rfloor>\<close> (1, -1 or 0) and
  whose \<open>rawDirection\<close> field is the quotient itself; for a missing buffer it returns
  \<open>null\<close>.
\<close>

theorem parseResult_direction_sign:
  "(length buf = 4 \<longrightarrow>
      (\<exists>v p. readInt32LE buf 0 = Inr v \<and> - (2 ^ 31) \<le> v \<and> v < 2 ^ 31
         \<and> parseResult (Some buf) = Inr (Some p)
         \<and> direction p = (if \<lfloor>real_of_int v / 1000\<rfloor> > 0 then 1
                           else if \<lfloor>real_of_int v / 1000\<rfloor> < 0 then - 1 else 0)
         \<and> rawDirection p = \<lfloor>real_of_int v / 1000\<rfloor>))
   \<and> parseResult None = Inr None"
proof -
  have "\<exists>v p. readInt32LE buf 0 = Inr v \<and> - (2 ^ 31) \<le> v \<and> v < 2 ^ 31
         \<and> parseResult (Some buf) = Inr (Some p)
         \<and> direction p = (if \<lfloor>real_of_int v / 1000\<rfloor> > 0 then 1
                           else if \<lfloor>real_of_int v / 1000\<rfloor> < 0 then - 1 else 0)
         \<and> rawDirection p = \<lfloor>real_of_int v / 1000\<rfloor>" if "length buf = 4"
  proof -
    from that obtain v where v: "readInt32LE buf 0 = Inr v"
      using readInt32LE_total [of 0 buf] by auto
    show ?thesis
      using v readInt32LE_range [OF v] parseResult_of_value [OF v]
      by (simp add: floor_div_1000 sgn_if)
  qed
  moreover have "parseResult None = Inr None" by (simp add: parseResult_def)
  ultimately show ?thesis by blast
qed

theorem parseResult_direction_sign_witness:
  "length [141, 218, 254, 255 :: byte] = 4
   \<and> readInt32LE [141, 218, 254, 255] 0 = Inr (- 75123)
   \<and> (\<exists>p. parseResult (Some [141, 218, 254, 255]) = Inr (Some p)
          \<and> direction p = - 1 \<and> rawDirection p = - 76)"
proof -
  have l: "length [141, 218, 254, 255 :: byte] = 4" by simp
  have v: "readInt32LE [141, 218, 254, 255] 0 = Inr (- 75123)"
    by (simp add: readInt32LE_def)
  from parseResult_direction_sign [of "[141, 218, 254, 255]"] l v
  obtain p where "parseResult (Some [141, 218, 254, 255]) = Inr (Some p)"
    "direction p = (if \<lfloor>real_of_int (- 75123) / 1000\<rfloor> > 0 then 1
                           else if \<lfloor>real_of_int (- 75123) / 1000\<rfloor> < 0 then - 1 else 0)"
    "rawDirection p = \<lfloor>real_of_int (- 75123) / 1000\<rfloor>"
    by auto
  then show ?thesis using l v by (simp add: floor_div_1000)
qed

subsection \<open>Feature encoders\<close>

text \<open>The equations that evaluate the arithmetic on given numbers.\<close>

lemmas js_arith =
  js_add_def js_sub_def js_mul_def js_div_def Math_min_def Math_max_def num_less_def
  js_greater_def clamp_def round_to_double_def round_half_even_def ilog2_def pow2_def
  bit_length.simps Let_def



lemma spec_clamp_range: "0 \<le> spec_clamp a 0 255 \<and> spec_clamp a 0 255 \<le> 255"
  by (simp add: spec_clamp_def)




text \<open>\<open>Math.max(0, Math.min(255, v))\<close> on every kind of number.\<close>

lemma clamp_Finite: "clamp (Finite r) = Finite (max 0 (min 255 r))"
  by (simp add: clamp_def Math_max_def Math_min_def num_less_def max_def min_def)

lemma clamp_special:
  "clamp NotANumber = NotANumber" "clamp PlusInfinity = Finite 255"
  "clamp MinusInfinity = Finite 0" "clamp MinusZero = Finite 0"
  by (simp_all add: clamp_def Math_max_def Math_min_def num_less_def)

lemma clamp_of_int: "clamp (Finite (of_int n)) = Finite (of_int (spec_clamp n 0 255))"
  by (simp add: clamp_Finite spec_clamp_def max_def min_def)

lemma clamp_floor: "clamp (Math_floor s) = floor_clamp s"
  by (cases s) (simp_all add: clamp_special clamp_of_int)

lemma clamp_round: "clamp (Math_round s) = spec_round_clamp s"
proof (cases s)
  case (Finite r)
  have "clamp (Math_round (Finite r)) = Finite (of_int (spec_clamp \<lfloor>r + 1 / 2\<rfloor> 0 255))"
    by (simp add: clamp_special clamp_of_int spec_clamp_def)
  then show ?thesis using Finite by (simp add: round_def)
qed (simp_all add: clamp_special)

text \<open>The clamp gives NaN for NaN, and a number from 0 to 255 for every other number.\<close>

lemma clamp_range:
  "clamp v = NotANumber \<longleftrightarrow> v = NotANumber"
  "v \<noteq> NotANumber \<Longrightarrow> \<exists>r. clamp v = Finite r \<and> 0 \<le> r \<and> r \<le> 255"
  by (cases v; simp add: clamp_special clamp_Finite)+


lemma calculateFeatures_Some:
  fixes history :: "sample list" and rnd :: rounding
  defines "current \<equiv> history ! (length history - 1)"
    and "prev1 \<equiv> history ! (length history - 2)"
    and "prev2 \<equiv> history ! (length history - 3)"
    and "prev3 \<equiv> history ! (length history - 4)"
  defines "sma \<equiv> js_div rnd
                    (js_add rnd (js_add rnd (js_add rnd (pythPrice current) (pythPrice prev1))
                       (pythPrice prev2)) (pythPrice prev3))
                    (Finite 4)"
  assumes l: "4 \<le> length history"
  shows "\<exists>t. calculateFeatures rnd history = Some t
     \<and> priceVsSma t = spec_round_clamp (js_add rnd (Finite 128)
          (js_mul rnd (js_div rnd (js_sub rnd (pythPrice current) sma) sma) (Finite 100)))
     \<and> tf_momentum t = spec_round_clamp (js_add rnd (Finite 128)
          (js_mul rnd (js_div rnd (js_sub rnd (pythPrice current) (pythPrice prev3))
             (pythPrice prev3)) (Finite 100)))
     \<and> spreadFeature t = spec_round_clamp (js_add rnd (Finite 128) (spread current))"
proof -
  have n: "(length history < 4) = False" using l by simp
  have c: "\<And>v. Math_max (Finite 0) (Math_min (Finite 255) (Math_round v)) = spec_round_clamp v"
    using clamp_round by (simp add: clamp_def)
  show ?thesis
    apply (rule exI [of _ "the (calculateFeatures rnd history)"])
    unfolding calculateFeatures_def Let_def sma_def current_def prev1_def prev2_def prev3_def
    apply (simp only: n if_False option.sel trainingFeatures.select_convs c)
    done
qed

text \<open>Two sums that the arithmetic rounds: \<open>128 - 2 ^ -64\<close> to 128, and
  \<open>128 + (1/2 - 2 ^ -54)\<close> to 128.5.\<close>

lemma rounded_sums:
  "js_add round_to_double (Finite 128)
     (js_mul round_to_double (Finite (- (1 / 2 ^ 70))) (Finite 64)) = Finite 128"
  "js_add round_to_double (Finite 128) (Finite (1 / 2 - 1 / 2 ^ 54)) = Finite (257 / 2)"
  by code_simp+

text \<open>So a volume change of \<open>- 2 ^ -70\<close> is encoded as 128, where exact arithmetic would
  give 127.\<close>

lemma normalizeFeatures_rounded_sum:
  "volumeAccel (normalizeFeatures round_to_double
      \<lparr> vwap = Finite 1, price = Finite 1, volumeChange = Finite (- (1 / 2 ^ 70)),
        bidAskRatio = Finite 0, md_volatility = Finite 0, liquidityRatio = Finite 0,
        md_momentum = Finite 0 \<rparr>) = Finite 128"
  by (simp only: normalizeFeatures_def features.select_convs marketData.select_convs
        clamp_floor rounded_sums)
     (simp add: spec_clamp_def)

text \<open>A price of zero four samples back gives an infinite quotient and the momentum 255;
  a spread of \<open>1/2 - 2 ^ -54\<close> is encoded as 129, where exact arithmetic would give 128.\<close>

lemma calculateFeatures_rounded_sum:
  "\<exists>t. calculateFeatures round_to_double
      [\<lparr>timestamp = 1, pythPrice = Finite 0, dexPrice = Finite 0, s_liquidity = 30, spread = Finite 0\<rparr>,
       \<lparr>timestamp = 2, pythPrice = Finite 1, dexPrice = Finite 1, s_liquidity = 30, spread = Finite 0\<rparr>,
       \<lparr>timestamp = 3, pythPrice = Finite 1, dexPrice = Finite 1, s_liquidity = 30, spread = Finite 0\<rparr>,
       \<lparr>timestamp = 4, pythPrice = Finite 1, dexPrice = Finite 1, s_liquidity = 31,
         spread = Finite (1 / 2 - 1 / 2 ^ 54)\<rparr>] = Some t
     \<and> tf_momentum t = Finite 255 \<and> spreadFeature t = Finite 129"
proof -
  let ?h = "[\<lparr>timestamp = 1, pythPrice = Finite 0, dexPrice = Finite 0, s_liquidity = 30, spread = Finite 0\<rparr>,
       \<lparr>timestamp = 2, pythPrice = Finite 1, dexPrice = Finite 1, s_liquidity = 30, spread = Finite 0\<rparr>,
       \<lparr>timestamp = 3, pythPrice = Finite 1, dexPrice = Finite 1, s_liquidity = 30, spread = Finite 0\<rparr>,
       \<lparr>timestamp = 4, pythPrice = Finite 1, dexPrice = Finite 1, s_liquidity = 31,
         spread = Finite (1 / 2 - 1 / 2 ^ 54)\<rparr>]"
  have m: "js_add round_to_double (Finite 128)
             (js_mul round_to_double (js_div round_to_double
                (js_sub round_to_double (Finite 1) (Finite 0)) (Finite 0)) (Finite 100))
           = PlusInfinity"
    by (simp add: js_arith)
  have l: "4 \<le> length ?h" by simp
  have i: "?h ! (length ?h - 1) = \<lparr>timestamp = 4, pythPrice = Finite 1, dexPrice = Finite 1,
             s_liquidity = 31, spread = Finite (1 / 2 - 1 / 2 ^ 54)\<rparr>"
    "?h ! (length ?h - 4) = \<lparr>timestamp = 1, pythPrice = Finite 0, dexPrice = Finite 0,
             s_liquidity = 30, spread = Finite 0\<rparr>"
    by simp_all
  from calculateFeatures_Some [OF l] obtain t
    where t: "calculateFeatures round_to_double ?h = Some t"
      and mo: "tf_momentum t = spec_round_clamp (js_add round_to_double (Finite 128)
          (js_mul round_to_double (js_div round_to_double
             (js_sub round_to_double (pythPrice (?h ! (length ?h - 1)))
                (pythPrice (?h ! (length ?h - 4))))
             (pythPrice (?h ! (length ?h - 4)))) (Finite 100)))"
      and sp: "spreadFeature t = spec_round_clamp
          (js_add round_to_double (Finite 128) (spread (?h ! (length ?h - 1))))"
    by blast
  have "tf_momentum t = Finite 255"
    using mo by (simp only: i sample.select_convs m spec_round_clamp.simps)
  moreover have "spreadFeature t = Finite 129"
    using sp by (simp only: i sample.select_convs rounded_sums) (simp add: spec_clamp_def round_def)
  ultimately show ?thesis using t by blast
qed




text \<open>
  Claim C5. The claim fails on the code: \<open>clamp\<close> is \<open>Math.max(0, Math.min(255, value))\<close>,
  which is NaN for NaN. With a price and a VWAP of zero the quotient is NaN and so is the
  feature \<open>vwapRatio\<close>; a market data object without the field \<open>volumeChange\<close> gives the
  feature \<open>volumeAccel\<close> NaN. Neither lies in [0, 255]. For every number that is not NaN
  the clamp does give a number from 0 to 255 (lemma \<open>clamp_range\<close>), and an infinite
  quotient saturates.
\<close>

theorem normalizeFeatures_NaN_not_clamped:
  "normalizeFeatures round_to_double
      \<lparr> vwap = Finite 0, price = Finite 0, volumeChange = Finite 0, bidAskRatio = Finite 0,
        md_volatility = Finite 0, liquidityRatio = Finite 0, md_momentum = Finite 0 \<rparr>
     = \<lparr> vwapRatio = NotANumber, volumeAccel = Finite 128, orderbookImbal = Finite 128,
         volatility = Finite 0, liquidity = Finite 0, momentum = Finite 128 \<rparr>
   \<and> normalizeFeatures round_to_double
      \<lparr> vwap = Finite 1, price = Finite 0, volumeChange = NotANumber, bidAskRatio = Finite 0,
        md_volatility = Finite 0, liquidityRatio = Finite 0, md_momentum = Finite 0 \<rparr>
     = \<lparr> vwapRatio = Finite 255, volumeAccel = NotANumber, orderbookImbal = Finite 128,
         volatility = Finite 0, liquidity = Finite 0, momentum = Finite 128 \<rparr>
   \<and> clamp NotANumber = NotANumber"
  by (simp add: normalizeFeatures_def js_arith)

subsection \<open>Chunked payload writer\<close>

lemma less_ceil_div:
  assumes "0 < cs"
  shows "(i < nat \<lceil>real len / real cs\<rceil>) = (i * cs < len)"
proof -
  have "(i < nat \<lceil>real len / real cs\<rceil>) = (int i < \<lceil>real len / real cs\<rceil>)"
    by (simp add: zless_nat_eq_int_zless)
  also have "\<dots> = (real i < real len / real cs)"
    by (simp add: less_ceiling_iff)
  also have "\<dots> = (real i * real cs < real len)"
    using assms by (simp add: pos_less_divide_eq)
  also have "\<dots> = (i * cs < len)"
    by (metis of_nat_less_iff of_nat_mult)
  finally show ?thesis .
qed

lemma u16_roundtrip:
  assumes "v \<le> 65535"
  shows "unat (word_of_nat v :: byte) + 256 * unat (word_of_nat (v div 256) :: byte) = v"
proof -
  have 1: "unat (word_of_nat v :: byte) = v mod 256"
    by (simp add: unat_of_nat)
  have "v div 256 < 256" using assms by simp
  then have 2: "unat (word_of_nat (v div 256) :: byte) = v div 256"
    by (simp add: unat_of_nat)
  show ?thesis unfolding 1 2 by simp
qed

lemma chunk_ix_fields:
  "ix_payload (chunk_ix data cs i) = slice_buf data (i * cs) (i * cs + cs)"
  "i * cs \<le> 65535 \<Longrightarrow> ix_offset (chunk_ix data cs i) = i * cs"
  "isWritable (chunk_ix data cs i)"
  "\<not> length (ix_data (chunk_ix data cs i)) < 3"
  using u16_roundtrip [of "i * cs"]
  by (simp_all add: ix_payload_def ix_offset_def chunk_ix_def del: of_nat_mult)

lemma length_slice_buf: "length (slice_buf xs a (a + n)) = min n (length xs - a)"
  by (simp add: slice_buf_def min.commute)

text \<open>One iteration of the loop, in closed form.\<close>

lemma chunk_step:
  "writeAccountDirect c (slice_buf data (i * cs) (i * cs + cs)) (i * cs) =
     (if i * cs > 65535 then (Some RangeError, c)
      else if length (slice_buf data (i * cs) (i * cs + cs)) > transportLimit c
        then (Some TransactionTooLarge, c\<lparr>submitted := submitted c @ [chunk_ix data cs i]\<rparr>)
      else if i * cs + length (slice_buf data (i * cs) (i * cs + cs)) > length (account_data c)
        then (Some InvalidArgument, c\<lparr>submitted := submitted c @ [chunk_ix data cs i]\<rparr>)
      else (None, c\<lparr>submitted := submitted c @ [chunk_ix data cs i],
                     account_data := take (i * cs) (account_data c)
                        @ slice_buf data (i * cs) (i * cs + cs)
                        @ drop (i * cs + length (slice_buf data (i * cs) (i * cs + cs))) (account_data c)\<rparr>))"
proof (cases "i * cs > 65535")
  case True
  then show ?thesis by (simp add: writeAccountDirect_def writeUInt16LE_def)
next
  case False
  then have le: "i * cs \<le> 65535" by simp
  have w: "writeAccountDirect c (slice_buf data (i * cs) (i * cs + cs)) (i * cs)
         = sendAndConfirmTransaction c (chunk_ix data cs i)"
    using False by (simp add: writeAccountDirect_def writeUInt16LE_def chunk_ix_def)
  show ?thesis
    unfolding w sendAndConfirmTransaction_def write_account_handler_def Let_def
    using False by (simp add: chunk_ix_fields le)
qed


lemma chunk_loop_unfold:
  "i < n \<Longrightarrow> chunk_loop data cs (Count n) i c =
     (case writeAccountDirect c (slice_buf data (i * cs) (i * cs + cs)) (i * cs) of
        (Some e, c') \<Rightarrow> Some (Some e, c')
      | (None, c') \<Rightarrow> chunk_loop data cs (Count n) (i + 1) c')"
  by (subst chunk_loop.simps) (simp add: Let_def)

lemma chunk_loop_done:
  "\<not> i < n \<Longrightarrow> chunk_loop data cs (Count n) i c = Some (None, c)"
  by (subst chunk_loop.simps) simp

lemma length_written:
  "min (j * cs) (length data) \<le> length acct \<Longrightarrow> length (written data cs j acct) = length acct"
  by (simp add: written_def)

lemma written_0: "written data cs 0 acct = acct"
  by (simp add: written_def)

lemma written_all:
  "length data \<le> j * cs \<Longrightarrow> written data cs j acct = data @ drop (length data) acct"
  by (simp add: written_def)

lemma written_step:
  assumes "m * cs < length data"
  shows "take (m * cs) (written data cs m acct) @ slice_buf data (m * cs) (m * cs + cs)
          @ drop (m * cs + length (slice_buf data (m * cs) (m * cs + cs))) (written data cs m acct)
         = written data cs (Suc m) acct"
proof -
  let ?k = "min cs (length data - m * cs)"
  have w: "written data cs m acct = take (m * cs) data @ drop (m * cs) acct"
    using assms by (simp add: written_def min_def)
  have l: "length (take (m * cs) data) = m * cs" using assms by simp
  have e: "min (Suc m * cs) (length data) = m * cs + ?k"
    using assms unfolding min_def by (auto simp: algebra_simps)
  have 1: "take (m * cs) (written data cs m acct) = take (m * cs) data"
    unfolding w using l by simp
  have 2: "drop (m * cs + ?k) (written data cs m acct) = drop (m * cs + ?k) acct"
    unfolding w using l by (simp add: add.commute)
  have 3: "take (m * cs) data @ slice_buf data (m * cs) (m * cs + cs) = take (m * cs + ?k) data"
    by (simp add: slice_buf_def take_add min_def)
  have "written data cs (Suc m) acct = take (m * cs + ?k) data @ drop (m * cs + ?k) acct"
    unfolding written_def e ..
  then show ?thesis
    unfolding length_slice_buf 1 2 using 3 by simp
qed

lemma chunk_end:
  "m * cs < length data \<Longrightarrow>
     m * cs + length (slice_buf data (m * cs) (m * cs + cs)) = min (Suc m * cs) (length data)"
  unfolding length_slice_buf min_def by (auto simp: algebra_simps)

lemma chunk_loop_run:
  assumes cs: "0 < cs" "cs \<le> transportLimit c"
    and n: "n = nat \<lceil>real (length data) / real cs\<rceil>"
    and m: "m \<le> n"
    and fits: "min (m * cs) (length data) \<le> length (account_data c)"
    and off: "\<forall>j<m. j * cs \<le> 65535"
  shows "chunk_loop data cs (Count n) 0 c =
         chunk_loop data cs (Count n) m
           (c\<lparr>submitted := submitted c @ map (chunk_ix data cs) [0..<m],
              account_data := written data cs m (account_data c)\<rparr>)"
  using m fits off
proof (induction m)
  case 0
  then show ?case by (simp add: written_0)
next
  case (Suc m)
  let ?c = "c\<lparr>submitted := submitted c @ map (chunk_ix data cs) [0..<m],
              account_data := written data cs m (account_data c)\<rparr>"
  have mn: "m < n" using Suc.prems by simp
  then have ml: "m * cs < length data"
    using less_ceil_div [OF cs(1), of m "length data"] n by simp
  have f: "min (m * cs) (length data) \<le> length (account_data c)"
    using Suc.prems(2) ml by (simp add: min_def split: if_splits)
  have ih: "chunk_loop data cs (Count n) 0 c = chunk_loop data cs (Count n) m ?c"
    using Suc.IH Suc.prems f by simp
  have o: "\<not> 65535 < m * cs" using Suc.prems(3) by (simp add: not_less)
  have t: "\<not> transportLimit ?c < length (slice_buf data (m * cs) (m * cs + cs))"
    using cs by (simp add: length_slice_buf)
  have a: "\<not> length (account_data ?c) < m * cs + length (slice_buf data (m * cs) (m * cs + cs))"
  proof -
    have "length (account_data ?c) = length (account_data c)"
      by (simp add: length_written [OF f])
    then show ?thesis
      unfolding chunk_end [OF ml] using Suc.prems(2) by (simp only: not_less)
  qed
  have "chunk_loop data cs (Count n) m ?c =
        chunk_loop data cs (Count n) (Suc m)
           (?c\<lparr>submitted := submitted ?c @ [chunk_ix data cs m],
                account_data := take (m * cs) (account_data ?c)
                        @ slice_buf data (m * cs) (m * cs + cs)
                        @ drop (m * cs + length (slice_buf data (m * cs) (m * cs + cs))) (account_data ?c)\<rparr>)"
    unfolding chunk_loop_unfold [OF mn] chunk_step using o t a by simp
  also have "\<dots> = chunk_loop data cs (Count n) (Suc m)
           (c\<lparr>submitted := submitted c @ map (chunk_ix data cs) [0..<Suc m],
              account_data := written data cs (Suc m) (account_data c)\<rparr>)"
    using written_step [OF ml, where acct = "account_data c"] by simp
  finally show ?case using ih by simp
qed


lemma offsets_fit:
  assumes "0 < cs" "\<forall>i. i * cs < length data \<longrightarrow> i * cs \<le> 65535"
  shows "\<forall>j < nat \<lceil>real (length data) / real cs\<rceil>. j * cs \<le> 65535"
  using assms less_ceil_div [OF assms(1)] by simp

lemma deploy_completes:
  assumes cs: "0 < cs" "cs \<le> transportLimit c"
    and cap: "length data \<le> length (account_data c)"
    and off: "\<forall>i. i * cs < length data \<longrightarrow> i * cs \<le> 65535"
  shows "writeToAccountChunked c data cs =
     Some (None, c\<lparr>submitted := submitted c
                        @ map (chunk_ix data cs) [0..<nat \<lceil>real (length data) / real cs\<rceil>],
                     account_data := data @ drop (length data) (account_data c)\<rparr>)"
proof -
  let ?n = "nat \<lceil>real (length data) / real cs\<rceil>"
  have "\<not> ?n * cs < length data"
    using less_ceil_div [OF cs(1), of ?n "length data"] by simp
  then have full: "length data \<le> ?n * cs" by simp
  have fits: "min (?n * cs) (length data) \<le> length (account_data c)"
    using cap by simp
  have "writeToAccountChunked c data cs = chunk_loop data cs (Count ?n) 0 c"
    using cs(1) by (simp add: writeToAccountChunked_def ceil_div_def)
  also have "\<dots> = chunk_loop data cs (Count ?n) ?n
           (c\<lparr>submitted := submitted c @ map (chunk_ix data cs) [0..<?n],
              account_data := written data cs ?n (account_data c)\<rparr>)"
    by (rule chunk_loop_run [OF cs refl order_refl fits offsets_fit [OF cs(1) off]])
  finally show ?thesis
    by (simp add: chunk_loop_done written_all [OF full])
qed

lemma deploy_range_error:
  assumes cs: "0 < cs" "cs \<le> transportLimit c"
    and m: "m * cs < length data" "65535 < m * cs"
    and fits: "min (m * cs) (length data) \<le> length (account_data c)"
    and off: "\<forall>j<m. j * cs \<le> 65535"
  shows "writeToAccountChunked c data cs =
     Some (Some RangeError,
           c\<lparr>submitted := submitted c @ map (chunk_ix data cs) [0..<m],
              account_data := written data cs m (account_data c)\<rparr>)"
proof -
  let ?n = "nat \<lceil>real (length data) / real cs\<rceil>"
  have mn: "m < ?n" using less_ceil_div [OF cs(1), of m "length data"] m(1) by simp
  then have mn': "m \<le> ?n" by simp
  have "writeToAccountChunked c data cs = chunk_loop data cs (Count ?n) 0 c"
    using cs(1) by (simp add: writeToAccountChunked_def ceil_div_def)
  also have "\<dots> = chunk_loop data cs (Count ?n) m
           (c\<lparr>submitted := submitted c @ map (chunk_ix data cs) [0..<m],
              account_data := written data cs m (account_data c)\<rparr>)"
    by (rule chunk_loop_run [OF cs refl mn' fits off])
  finally show ?thesis
    unfolding chunk_loop_unfold [OF mn] chunk_step using m(2) by simp
qed

lemma deploy_slot_overflow:
  assumes cs: "0 < cs" "cs \<le> transportLimit c"
    and m: "m * cs < length data" "m * cs \<le> 65535"
    and fits: "min (m * cs) (length data) \<le> length (account_data c)"
    and over: "length (account_data c) < min (Suc m * cs) (length data)"
    and off: "\<forall>j<m. j * cs \<le> 65535"
  shows "writeToAccountChunked c data cs =
     Some (Some InvalidArgument,
           c\<lparr>submitted := submitted c @ map (chunk_ix data cs) [0..<Suc m],
              account_data := written data cs m (account_data c)\<rparr>)"
proof -
  let ?n = "nat \<lceil>real (length data) / real cs\<rceil>"
  let ?c = "c\<lparr>submitted := submitted c @ map (chunk_ix data cs) [0..<m],
              account_data := written data cs m (account_data c)\<rparr>"
  have mn: "m < ?n" using less_ceil_div [OF cs(1), of m "length data"] m(1) by simp
  then have mn': "m \<le> ?n" by simp
  have o: "\<not> 65535 < m * cs" using m(2) by simp
  have t: "\<not> transportLimit ?c < length (slice_buf data (m * cs) (m * cs + cs))"
    using cs by (simp add: length_slice_buf)
  have a: "length (account_data ?c) < m * cs + length (slice_buf data (m * cs) (m * cs + cs))"
  proof -
    have "length (account_data ?c) = length (account_data c)"
      by (simp add: length_written [OF fits])
    then show ?thesis
      unfolding chunk_end [OF m(1)] using over by simp
  qed
  have "writeToAccountChunked c data cs = chunk_loop data cs (Count ?n) 0 c"
    using cs(1) by (simp add: writeToAccountChunked_def ceil_div_def)
  also have "\<dots> = chunk_loop data cs (Count ?n) m ?c"
    by (rule chunk_loop_run [OF cs refl mn' fits off])
  finally show ?thesis
    unfolding chunk_loop_unfold [OF mn] chunk_step using o t a by simp
qed

text \<open>Whatever the substrate answers, the loop returns, and what it has submitted is
  an initial segment of the chunk writes, in order.\<close>

lemma chunk_loop_prefix:
  assumes "i \<le> n"
  shows "\<exists>r c' k. chunk_loop data cs (Count n) i c = Some (r, c')
          \<and> i \<le> k \<and> k \<le> n
          \<and> submitted c' = submitted c @ map (chunk_ix data cs) [i..<k]
          \<and> (r = None \<longrightarrow> k = n)
          \<and> r \<noteq> Some SlotTooSmall
          \<and> (\<forall>j. i \<le> j \<and> j < k \<longrightarrow> j * cs \<le> 65535)
          \<and> (k = i \<and> i < n \<longrightarrow> 65535 < i * cs)"
  using assms
proof (induction "n - i" arbitrary: i c)
  case 0
  then have "\<not> i < n" by simp
  then have "chunk_loop data cs (Count n) i c = Some (None, c)"
    by (rule chunk_loop_done)
  then show ?case using 0 by auto
next
  case (Suc d)
  then have i: "i < n" by simp
  note u = chunk_loop_unfold [OF i, of data cs c]
  consider (range) "65535 < i * cs"
    | (large) "\<not> 65535 < i * cs"
        "transportLimit c < length (slice_buf data (i * cs) (i * cs + cs))"
    | (invalid) "\<not> 65535 < i * cs"
        "\<not> transportLimit c < length (slice_buf data (i * cs) (i * cs + cs))"
        "length (account_data c) < i * cs + length (slice_buf data (i * cs) (i * cs + cs))"
    | (ok) "\<not> 65535 < i * cs"
        "\<not> transportLimit c < length (slice_buf data (i * cs) (i * cs + cs))"
        "\<not> length (account_data c) < i * cs + length (slice_buf data (i * cs) (i * cs + cs))"
    by blast
  then show ?case
  proof cases
    case range
    then have "chunk_loop data cs (Count n) i c = Some (Some RangeError, c)"
      unfolding u chunk_step by simp
    then show ?thesis using i range by (intro exI [of _ "Some RangeError"] exI [of _ c] exI [of _ i]) simp
  next
    case large
    then have "chunk_loop data cs (Count n) i c =
        Some (Some TransactionTooLarge, c\<lparr>submitted := submitted c @ [chunk_ix data cs i]\<rparr>)"
      unfolding u chunk_step by simp
    then show ?thesis using i large(1)
      by (intro exI [of _ "Some TransactionTooLarge"]
            exI [of _ "c\<lparr>submitted := submitted c @ [chunk_ix data cs i]\<rparr>"] exI [of _ "Suc i"])
         (auto simp: less_Suc_eq_le)
  next
    case invalid
    then have "chunk_loop data cs (Count n) i c =
        Some (Some InvalidArgument, c\<lparr>submitted := submitted c @ [chunk_ix data cs i]\<rparr>)"
      unfolding u chunk_step by simp
    then show ?thesis using i invalid(1)
      by (intro exI [of _ "Some InvalidArgument"]
            exI [of _ "c\<lparr>submitted := submitted c @ [chunk_ix data cs i]\<rparr>"] exI [of _ "Suc i"])
         (auto simp: less_Suc_eq_le)
  next
    case ok
    let ?c1 = "c\<lparr>submitted := submitted c @ [chunk_ix data cs i],
                     account_data := take (i * cs) (account_data c)
                        @ slice_buf data (i * cs) (i * cs + cs)
                        @ drop (i * cs + length (slice_buf data (i * cs) (i * cs + cs))) (account_data c)\<rparr>"
    have s: "chunk_loop data cs (Count n) i c = chunk_loop data cs (Count n) (Suc i) ?c1"
      unfolding u chunk_step using ok by simp
    have "d = n - Suc i" "Suc i \<le> n" using Suc.hyps(2) i by simp_all
    from Suc.hyps(1) [OF this, of ?c1] obtain r c' k where
      r: "chunk_loop data cs (Count n) (Suc i) ?c1 = Some (r, c')"
        "Suc i \<le> k" "k \<le> n"
        "submitted c' = submitted ?c1 @ map (chunk_ix data cs) [Suc i..<k]"
        "r = None \<longrightarrow> k = n" "r \<noteq> Some SlotTooSmall"
        "\<forall>j. Suc i \<le> j \<and> j < k \<longrightarrow> j * cs \<le> 65535"
      by blast
    have "submitted c' = submitted c @ map (chunk_ix data cs) [i..<k]"
      using r(2,4) by (simp add: upt_conv_Cons)
    moreover have "\<forall>j. i \<le> j \<and> j < k \<longrightarrow> j * cs \<le> 65535"
      using r(7) ok(1) by (metis Suc_leI le_neq_implies_less not_less)
    ultimately show ?thesis
      using s r by (intro exI [of _ r] exI [of _ c'] exI [of _ k]) auto
  qed
qed

lemma slice_buf_as_range:
  "slice_buf xs (i * cs) (i * cs + cs)
     = take (min ((i + 1) * cs) (length xs) - i * cs) (drop (i * cs) xs)"
proof -
  have "take cs (drop (i * cs) xs) = take (min cs (length (drop (i * cs) xs))) (drop (i * cs) xs)"
    by (simp add: min_def)
  moreover have "min cs (length (drop (i * cs) xs)) = min ((i + 1) * cs) (length xs) - i * cs"
    unfolding min_def by (auto simp: algebra_simps)
  ultimately show ?thesis by (simp add: slice_buf_def)
qed

lemma first_chunk:
  "ix_offset (chunk_ix payload cs 0) = 0" "ix_payload (chunk_ix payload cs 0) = take cs payload"
  by (simp_all add: ix_offset_def ix_payload_def chunk_ix_def slice_buf_def)

text \<open>
  Claim C7, as amended. For every payload whose chunk offsets all fit the 16-bit offset
  field of the write instruction (every \<open>i * chunkSize\<close> below the payload length is at most
  65535) and every chunk size with \<open>0 < chunkSize \<le> transportLimit\<close>, the deploy into a
  zero-initialised slot of capacity at least the payload length completes, the first
  \<open>payload.length\<close> bytes of the slot are the payload, the rest of the slot is still zero,
  and every other admissible chunk size leaves the same bytes in the slot.
\<close>

theorem chunk_round_trip:
  assumes "0 < chunkSize" and "chunkSize \<le> transportLimit c"
    and "length payload \<le> length (account_data c)"
    and "account_data c = replicate (length (account_data c)) 0"
    and "\<forall>i. i * chunkSize < length payload \<longrightarrow> i * chunkSize \<le> 65535"
  shows "\<exists>c'. writeToAccountChunked c payload chunkSize = Some (None, c')
           \<and> take (length payload) (account_data c') = payload
           \<and> account_data c' = payload @ replicate (length (account_data c) - length payload) 0
           \<and> (\<forall>chunkSize'. 0 < chunkSize' \<and> chunkSize' \<le> transportLimit c
                  \<and> (\<forall>i. i * chunkSize' < length payload \<longrightarrow> i * chunkSize' \<le> 65535)
                \<longrightarrow> (\<exists>c''. writeToAccountChunked c payload chunkSize' = Some (None, c'')
                       \<and> account_data c'' = account_data c'))"
proof -
  have z: "drop (length payload) (account_data c)
         = replicate (length (account_data c) - length payload) 0"
    by (subst assms(4)) simp
  let ?c' = "c\<lparr>submitted := submitted c
                  @ map (chunk_ix payload chunkSize) [0..<nat \<lceil>real (length payload) / real chunkSize\<rceil>],
               account_data := payload @ drop (length payload) (account_data c)\<rparr>"
  have 1: "writeToAccountChunked c payload chunkSize = Some (None, ?c')"
    by (rule deploy_completes [OF assms(1,2,3,5)])
  have 2: "\<exists>c''. writeToAccountChunked c payload cs' = Some (None, c'')
                       \<and> account_data c'' = account_data ?c'"
    if "0 < cs'" "cs' \<le> transportLimit c"
      "\<forall>i. i * cs' < length payload \<longrightarrow> i * cs' \<le> 65535" for cs'
    using deploy_completes [OF that(1,2) assms(3) that(3)] by simp
  show ?thesis
    using 1 2 z by (intro exI [of _ ?c']) simp
qed

theorem chunk_round_trip_witness:
  "\<exists>c'. writeToAccountChunked \<lparr>account_data = replicate 5 0, transportLimit = 2, submitted = []\<rparr>
          [1, 2, 3] 2 = Some (None, c')
       \<and> account_data c' = [1, 2, 3, 0, 0]"
proof -
  let ?c = "\<lparr>account_data = replicate 5 0, transportLimit = 2, submitted = []\<rparr>"
  have h: "(0::nat) < 2" "2 \<le> transportLimit ?c"
    "length [1, 2, 3 :: byte] \<le> length (account_data ?c)"
    "account_data ?c = replicate (length (account_data ?c)) 0"
    by simp_all
  have o: "\<forall>i. i * 2 < length [1, 2, 3 :: byte] \<longrightarrow> i * 2 \<le> 65535"
    by auto
  from chunk_round_trip [OF h o] obtain c' where
    "writeToAccountChunked ?c [1, 2, 3] 2 = Some (None, c')"
    "account_data c' = [1, 2, 3] @ replicate (length (account_data ?c) - length [1, 2, 3 :: byte]) 0"
    by blast
  then show ?thesis by (intro exI [of _ c']) (simp add: numeral_2_eq_2)
qed

text \<open>
  The claim fails for a payload beyond the reach of the two-byte offset: with 66600 bytes
  and the default chunk size 900, chunk 73 starts at offset 65700, \<open>writeUInt16LE\<close> throws,
  and the slot holds only the first 65700 bytes of the payload.
\<close>

theorem chunk_round_trip_large_payload_counterexample:
  "writeToAccountChunked \<lparr>account_data = replicate 70000 0, transportLimit = 900, submitted = []\<rparr>
      (replicate 66600 1) 900
     = Some (Some RangeError,
             \<lparr>account_data = replicate 65700 1 @ replicate 4300 0, transportLimit = 900,
                submitted = map (chunk_ix (replicate 66600 1) 900) [0..<73]\<rparr>)"
proof -
  let ?c = "\<lparr>account_data = replicate 70000 0, transportLimit = 900, submitted = []\<rparr>"
  have o: "\<forall>j<73. j * 900 \<le> (65535::nat)" by auto
  have "writeToAccountChunked ?c (replicate 66600 1) 900 =
     Some (Some RangeError,
           ?c\<lparr>submitted := submitted ?c @ map (chunk_ix (replicate 66600 1) 900) [0..<73],
              account_data := written (replicate 66600 1) 900 73 (account_data ?c)\<rparr>)"
    by (rule deploy_range_error) (simp_all add: o)
  then show ?thesis by (simp add: written_def del: upt_rec_numeral)
qed

text \<open>
  Claim C8, as amended. For every non-empty payload and every chunk size above zero the
  deploy returns, and the writes it has submitted are the first \<open>k\<close> chunks,
  \<open>1 \<le> k \<le> ceil(payload.length / chunkSize)\<close>, one write per chunk in strictly increasing
  offset order: chunk \<open>i\<close> carries the offset \<open>i * chunkSize\<close> and the bytes
  \<open>payload[i * chunkSize .. min((i + 1) * chunkSize, payload.length))\<close>, and every chunk but
  the last of the payload has exactly \<open>chunkSize\<close> bytes. All chunks are submitted
  (\<open>k = ceil(payload.length / chunkSize)\<close>) when the run completes, and it completes when
  the chunk size is within the transport limit, the slot is large enough and every chunk
  offset is at most 65535.
\<close>

theorem chunk_writes_in_order:
  assumes "0 < chunkSize" and "payload \<noteq> []"
  shows "\<exists>r c' k. writeToAccountChunked c payload chunkSize = Some (r, c')
     \<and> 1 \<le> k \<and> k \<le> nat \<lceil>real (length payload) / real chunkSize\<rceil>
     \<and> submitted c' = submitted c @ map (chunk_ix payload chunkSize) [0..<k]
     \<and> (\<forall>i<k. ix_offset (chunk_ix payload chunkSize i) = i * chunkSize
            \<and> ix_payload (chunk_ix payload chunkSize i)
                = take (min ((i + 1) * chunkSize) (length payload) - i * chunkSize)
                    (drop (i * chunkSize) payload)
            \<and> (i + 1 < nat \<lceil>real (length payload) / real chunkSize\<rceil> \<longrightarrow>
                  length (ix_payload (chunk_ix payload chunkSize i)) = chunkSize))
     \<and> (\<forall>i j. i < j \<and> j < k \<longrightarrow>
            ix_offset (chunk_ix payload chunkSize i) < ix_offset (chunk_ix payload chunkSize j))
     \<and> (r = None \<longrightarrow> k = nat \<lceil>real (length payload) / real chunkSize\<rceil>)
     \<and> (chunkSize \<le> transportLimit c \<and> length payload \<le> length (account_data c)
          \<and> (\<forall>i. i * chunkSize < length payload \<longrightarrow> i * chunkSize \<le> 65535) \<longrightarrow> r = None)"
proof -
  let ?n = "nat \<lceil>real (length payload) / real chunkSize\<rceil>"
  have n0: "0 < ?n"
    using less_ceil_div [OF assms(1), of 0 "length payload"] assms(2) by simp
  have w: "writeToAccountChunked c payload chunkSize = chunk_loop payload chunkSize (Count ?n) 0 c"
    using assms(1) by (simp add: writeToAccountChunked_def ceil_div_def)
  from chunk_loop_prefix [of 0 ?n payload chunkSize c] obtain r c' k where
    p: "chunk_loop payload chunkSize (Count ?n) 0 c = Some (r, c')" "k \<le> ?n"
      "submitted c' = submitted c @ map (chunk_ix payload chunkSize) [0..<k]"
      "r = None \<longrightarrow> k = ?n"
      "\<forall>j. 0 \<le> j \<and> j < k \<longrightarrow> j * chunkSize \<le> 65535"
      "k = 0 \<and> 0 < ?n \<longrightarrow> 65535 < 0 * chunkSize"
    by blast
  have k1: "1 \<le> k" using p(6) n0 by (cases k) simp_all
  have f: "ix_offset (chunk_ix payload chunkSize i) = i * chunkSize
            \<and> ix_payload (chunk_ix payload chunkSize i)
                = take (min ((i + 1) * chunkSize) (length payload) - i * chunkSize)
                    (drop (i * chunkSize) payload)
            \<and> (i + 1 < ?n \<longrightarrow> length (ix_payload (chunk_ix payload chunkSize i)) = chunkSize)"
    if "i < k" for i
  proof -
    have o: "i * chunkSize \<le> 65535" using p(5) that by simp
    have a: "ix_offset (chunk_ix payload chunkSize i) = i * chunkSize"
      by (rule chunk_ix_fields(2) [OF o])
    have b: "ix_payload (chunk_ix payload chunkSize i)
                = take (min ((i + 1) * chunkSize) (length payload) - i * chunkSize)
                    (drop (i * chunkSize) payload)"
      unfolding chunk_ix_fields(1) by (rule slice_buf_as_range)
    have c: "length (ix_payload (chunk_ix payload chunkSize i)) = chunkSize" if "i + 1 < ?n"
    proof -
      have "(i + 1) * chunkSize < length payload"
        using less_ceil_div [OF assms(1), of "i + 1" "length payload"] that by simp
      then have "chunkSize \<le> length payload - i * chunkSize"
        by (simp add: algebra_simps)
      then show ?thesis
        unfolding chunk_ix_fields(1) length_slice_buf by (rule min_absorb1)
    qed
    show ?thesis using a b c by blast
  qed
  have inc: "ix_offset (chunk_ix payload chunkSize i) < ix_offset (chunk_ix payload chunkSize j)"
    if "i < j" "j < k" for i j
  proof -
    have "i < k" using that by simp
    then have "ix_offset (chunk_ix payload chunkSize i) = i * chunkSize"
      "ix_offset (chunk_ix payload chunkSize j) = j * chunkSize"
      using f that(2) by simp_all
    then show ?thesis using that(1) assms(1) by simp
  qed
  have ok: "r = None"
    if "chunkSize \<le> transportLimit c" "length payload \<le> length (account_data c)"
       "\<forall>i. i * chunkSize < length payload \<longrightarrow> i * chunkSize \<le> 65535"
    using deploy_completes [OF assms(1) that] p(1) w by simp
  show ?thesis
  proof (intro exI conjI)
    show "writeToAccountChunked c payload chunkSize = Some (r, c')" using w p(1) by simp
    show "1 \<le> k" by (rule k1)
    show "k \<le> ?n" by (rule p(2))
    show "submitted c' = submitted c @ map (chunk_ix payload chunkSize) [0..<k]" by (rule p(3))
    show "\<forall>i<k. ix_offset (chunk_ix payload chunkSize i) = i * chunkSize
            \<and> ix_payload (chunk_ix payload chunkSize i)
                = take (min ((i + 1) * chunkSize) (length payload) - i * chunkSize)
                    (drop (i * chunkSize) payload)
            \<and> (i + 1 < ?n \<longrightarrow> length (ix_payload (chunk_ix payload chunkSize i)) = chunkSize)"
      using f by blast
    show "\<forall>i j. i < j \<and> j < k \<longrightarrow>
            ix_offset (chunk_ix payload chunkSize i) < ix_offset (chunk_ix payload chunkSize j)"
      using inc by blast
    show "r = None \<longrightarrow> k = ?n" by (rule p(4))
    show "chunkSize \<le> transportLimit c \<and> length payload \<le> length (account_data c)
          \<and> (\<forall>i. i * chunkSize < length payload \<longrightarrow> i * chunkSize \<le> 65535) \<longrightarrow> r = None"
      using ok by blast
  qed
qed

theorem chunk_writes_in_order_witness:
  "\<exists>r c'. writeToAccountChunked \<lparr>account_data = replicate 5 0, transportLimit = 2, submitted = []\<rparr>
          [1, 2, 3] 2 = Some (r, c')
       \<and> r = None
       \<and> submitted c' = [chunk_ix [1, 2, 3] 2 0, chunk_ix [1, 2, 3] 2 1]
       \<and> ix_offset (chunk_ix [1, 2, 3] 2 1) = 2 \<and> ix_payload (chunk_ix [1, 2, 3] 2 1) = [3]"
proof -
  let ?c = "\<lparr>account_data = replicate 5 0, transportLimit = 2, submitted = []\<rparr>"
  let ?p = "[1, 2, 3 :: byte]"
  have n: "nat \<lceil>real (length ?p) / real 2\<rceil> = 2" by simp
  have h: "(0::nat) < 2" "?p \<noteq> []" by simp_all
  have o: "2 \<le> transportLimit ?c \<and> length ?p \<le> length (account_data ?c)
          \<and> (\<forall>i. i * 2 < length ?p \<longrightarrow> i * 2 \<le> 65535)"
    by auto
  from chunk_writes_in_order [OF h, of ?c] obtain r c' k where
    k: "writeToAccountChunked ?c ?p 2 = Some (r, c')"
      "submitted c' = submitted ?c @ map (chunk_ix ?p 2) [0..<k]"
      "r = None \<longrightarrow> k = nat \<lceil>real (length ?p) / real 2\<rceil>"
      "2 \<le> transportLimit ?c \<and> length ?p \<le> length (account_data ?c)
          \<and> (\<forall>i. i * 2 < length ?p \<longrightarrow> i * 2 \<le> 65535) \<longrightarrow> r = None"
      "\<forall>i<k. ix_offset (chunk_ix ?p 2 i) = i * 2
            \<and> ix_payload (chunk_ix ?p 2 i)
                = take (min ((i + 1) * 2) (length ?p) - i * 2) (drop (i * 2) ?p)
            \<and> (i + 1 < nat \<lceil>real (length ?p) / real 2\<rceil> \<longrightarrow>
                  length (ix_payload (chunk_ix ?p 2 i)) = 2)"
    by blast
  have r: "r = None" using k(4) o by blast
  then have k2: "k = 2" using k(3) n by simp
  have s: "submitted c' = [chunk_ix ?p 2 0, chunk_ix ?p 2 1]"
    using k(2) unfolding k2 by (simp add: upt_rec numeral_2_eq_2)
  have "ix_offset (chunk_ix ?p 2 1) = 2 \<and> ix_payload (chunk_ix ?p 2 1) = [3]"
    using k(5) unfolding k2 by (simp add: numeral_2_eq_2)
  then show ?thesis using k(1) r s by blast
qed

text \<open>
  As worded, for every payload, the claim fails: of the 70 chunks of a payload of 70000
  bytes with chunk size 1000 only the first 66 are submitted, because the offset 66000 of
  the next one does not fit the offset field.
\<close>

theorem chunk_writes_large_payload_counterexample:
  "writeToAccountChunked \<lparr>account_data = replicate 70000 0, transportLimit = 1000, submitted = []\<rparr>
      (replicate 70000 7) 1000
     = Some (Some RangeError,
             \<lparr>account_data = replicate 66000 7 @ replicate 4000 0, transportLimit = 1000,
                submitted = map (chunk_ix (replicate 70000 7) 1000) [0..<66]\<rparr>)
   \<and> ceil_div (length (replicate 70000 (7 :: byte))) 1000 = Count 70"
proof -
  let ?c = "\<lparr>account_data = replicate 70000 0, transportLimit = 1000, submitted = []\<rparr>"
  have o: "\<forall>j<66. j * 1000 \<le> (65535::nat)" by auto
  have "writeToAccountChunked ?c (replicate 70000 7) 1000 =
     Some (Some RangeError,
           ?c\<lparr>submitted := submitted ?c @ map (chunk_ix (replicate 70000 7) 1000) [0..<66],
              account_data := written (replicate 70000 7) 1000 66 (account_data ?c)\<rparr>)"
    by (rule deploy_range_error) (simp_all add: o)
  then show ?thesis by (simp add: written_def ceil_div_def del: upt_rec_numeral)
qed

text \<open>
  Claim C3, as amended. \<open>writeToAccountChunked\<close> makes no capacity check and never fails
  with \<open>SlotTooSmall\<close>: for every slot, every non-empty payload and every chunk size above
  zero it submits the write of the first chunk at offset 0. When the slot is smaller than
  the payload (chunk size within the transport limit, offsets within 16 bits), the
  \<open>capacity div chunkSize\<close> chunks that fit are written, and the run stops with the
  on-chain handler's \<open>InvalidArgument\<close> for the next chunk.
\<close>

theorem deploy_has_no_capacity_check:
  assumes "0 < chunkSize" and "payload \<noteq> []"
  shows "\<exists>r c'. writeToAccountChunked c payload chunkSize = Some (r, c')
     \<and> r \<noteq> Some SlotTooSmall
     \<and> take (Suc (length (submitted c))) (submitted c')
         = submitted c @ [chunk_ix payload chunkSize 0]
     \<and> ix_offset (chunk_ix payload chunkSize 0) = 0
     \<and> ix_payload (chunk_ix payload chunkSize 0) = take chunkSize payload
     \<and> (length (account_data c) < length payload \<and> chunkSize \<le> transportLimit c
          \<and> (\<forall>i. i * chunkSize < length payload \<longrightarrow> i * chunkSize \<le> 65535)
        \<longrightarrow> r = Some InvalidArgument
          \<and> account_data c'
              = take (length (account_data c) div chunkSize * chunkSize) payload
                @ drop (length (account_data c) div chunkSize * chunkSize) (account_data c)
          \<and> submitted c' = submitted c
              @ map (chunk_ix payload chunkSize) [0..<Suc (length (account_data c) div chunkSize)])"
proof -
  let ?n = "nat \<lceil>real (length payload) / real chunkSize\<rceil>"
  let ?m = "length (account_data c) div chunkSize"
  have n0: "0 < ?n"
    using less_ceil_div [OF assms(1), of 0 "length payload"] assms(2) by simp
  have w: "writeToAccountChunked c payload chunkSize = chunk_loop payload chunkSize (Count ?n) 0 c"
    using assms(1) by (simp add: writeToAccountChunked_def ceil_div_def)
  from chunk_loop_prefix [of 0 ?n payload chunkSize c] obtain r c' k where
    p: "chunk_loop payload chunkSize (Count ?n) 0 c = Some (r, c')"
      "submitted c' = submitted c @ map (chunk_ix payload chunkSize) [0..<k]"
      "r \<noteq> Some SlotTooSmall"
      "k = 0 \<and> 0 < ?n \<longrightarrow> 65535 < 0 * chunkSize"
    by blast
  have "0 < k" using p(4) n0 by (cases k) simp_all
  then have "[0..<k] = 0 # [1..<k]" by (simp add: upt_conv_Cons)
  then have first: "take (Suc (length (submitted c))) (submitted c')
         = submitted c @ [chunk_ix payload chunkSize 0]"
    using p(2) by simp
  have small: "r = Some InvalidArgument
          \<and> account_data c' = take (?m * chunkSize) payload @ drop (?m * chunkSize) (account_data c)
          \<and> submitted c' = submitted c @ map (chunk_ix payload chunkSize) [0..<Suc ?m]"
    if cap: "length (account_data c) < length payload" and lim: "chunkSize \<le> transportLimit c"
      and off: "\<forall>i. i * chunkSize < length payload \<longrightarrow> i * chunkSize \<le> 65535"
  proof -
    have le: "?m * chunkSize \<le> length (account_data c)" by simp
    then have m1: "?m * chunkSize < length payload" using cap by (rule le_less_trans)
    have m2: "?m * chunkSize \<le> 65535" using off m1 by blast
    have fits: "min (?m * chunkSize) (length payload) \<le> length (account_data c)"
      by (rule min.coboundedI1 [OF le])
    have "length (account_data c) < Suc ?m * chunkSize"
      using assms(1) by (simp add: dividend_less_div_times add.commute)
    then have over: "length (account_data c) < min (Suc ?m * chunkSize) (length payload)"
      using cap by simp
    have offs: "\<forall>j<?m. j * chunkSize \<le> 65535"
    proof (intro allI impI)
      fix j assume "j < ?m"
      then have "j * chunkSize \<le> ?m * chunkSize" by (intro mult_le_mono1) simp
      then have "j * chunkSize < length payload" using m1 by (rule le_less_trans)
      then show "j * chunkSize \<le> 65535" using off by blast
    qed
    have "writeToAccountChunked c payload chunkSize =
       Some (Some InvalidArgument,
           c\<lparr>submitted := submitted c @ map (chunk_ix payload chunkSize) [0..<Suc ?m],
              account_data := written payload chunkSize ?m (account_data c)\<rparr>)"
      by (rule deploy_slot_overflow [OF assms(1) lim m1 m2 fits over offs])
    moreover have "written payload chunkSize ?m (account_data c)
        = take (?m * chunkSize) payload @ drop (?m * chunkSize) (account_data c)"
      using m1 by (simp add: written_def min_def)
    ultimately show ?thesis using p(1) w by simp
  qed
  show ?thesis
  proof (intro exI conjI)
    show "writeToAccountChunked c payload chunkSize = Some (r, c')" using w p(1) by simp
    show "r \<noteq> Some SlotTooSmall" by (rule p(3))
    show "take (Suc (length (submitted c))) (submitted c')
         = submitted c @ [chunk_ix payload chunkSize 0]" by (rule first)
    show "ix_offset (chunk_ix payload chunkSize 0) = 0" by (rule first_chunk)
    show "ix_payload (chunk_ix payload chunkSize 0) = take chunkSize payload" by (rule first_chunk)
    show "length (account_data c) < length payload \<and> chunkSize \<le> transportLimit c
          \<and> (\<forall>i. i * chunkSize < length payload \<longrightarrow> i * chunkSize \<le> 65535)
        \<longrightarrow> r = Some InvalidArgument
          \<and> account_data c' = take (?m * chunkSize) payload @ drop (?m * chunkSize) (account_data c)
          \<and> submitted c' = submitted c @ map (chunk_ix payload chunkSize) [0..<Suc ?m]"
      using small by blast
  qed
qed

theorem deploy_has_no_capacity_check_witness:
  "\<exists>r c'. writeToAccountChunked \<lparr>account_data = [0], transportLimit = 900, submitted = []\<rparr>
          [1, 2] 1 = Some (r, c')
       \<and> r = Some InvalidArgument \<and> account_data c' = [1]
       \<and> submitted c' = [chunk_ix [1, 2] 1 0, chunk_ix [1, 2] 1 1]"
proof -
  let ?c = "\<lparr>account_data = [0 :: byte], transportLimit = 900, submitted = []\<rparr>"
  let ?p = "[1, 2 :: byte]"
  have h: "(0::nat) < 1" "?p \<noteq> []" by simp_all
  have o: "length (account_data ?c) < length ?p \<and> 1 \<le> transportLimit ?c
          \<and> (\<forall>i. i * 1 < length ?p \<longrightarrow> i * 1 \<le> 65535)"
    by auto
  from deploy_has_no_capacity_check [OF h, of ?c] o obtain r c' where
    "writeToAccountChunked ?c ?p 1 = Some (r, c')"
    "r = Some InvalidArgument"
    "account_data c' = take (length (account_data ?c) div 1 * 1) ?p
                @ drop (length (account_data ?c) div 1 * 1) (account_data ?c)"
    "submitted c' = submitted ?c @ map (chunk_ix ?p 1) [0..<Suc (length (account_data ?c) div 1)]"
    by blast
  then show ?thesis
    by (intro exI [of _ r] exI [of _ c']) (simp add: upt_rec)
qed

text \<open>
  The claim as worded fails: with a slot of one byte and a payload of two bytes the first
  chunk is written into the slot, and the error is the handler's \<open>InvalidArgument\<close> for the
  second chunk.
\<close>

theorem deploy_small_slot_counterexample:
  "writeToAccountChunked \<lparr>account_data = [0], transportLimit = 900, submitted = []\<rparr> [1, 2] 1
     = Some (Some InvalidArgument,
             \<lparr>account_data = [1], transportLimit = 900,
                submitted = [\<lparr>isWritable = True, ix_data = [3, 0, 0, 1]\<rparr>,
                             \<lparr>isWritable = True, ix_data = [3, 1, 0, 2]\<rparr>]\<rparr>)"
  by (simp add: writeToAccountChunked_def ceil_div_def chunk_loop.simps writeAccountDirect_def
        writeUInt16LE_def sendAndConfirmTransaction_def write_account_handler_def ix_offset_def
        ix_payload_def slice_buf_def MODE_WRITE_ACCOUNT_def Let_def)

subsection \<open>Sequencing the execution units\<close>

lemma sent_crank_step:
  "sent (crank_step env accountMap s w) =
     sent w @ compiled_transactions (compilePython env) accountMap [s]"
  by (simp add: crank_step_def executePythonScript_def Let_def split: sum.splits prod.splits)

lemma sent_crank_loop:
  "sent (crank_loop env accountMap scripts w) =
     sent w @ compiled_transactions (compilePython env) accountMap scripts"
proof (induction scripts arbitrary: w)
  case Nil
  then show ?case by simp
next
  case (Cons s scripts)
  show ?case
    by (simp add: Cons.IH sent_crank_step split: sum.splits)
qed

lemma length_compiled_transactions:
  "\<forall>s \<in> set scripts. \<exists>b. compile (script_file s) = Inr b \<Longrightarrow>
     length (compiled_transactions compile accountMap scripts) = length scripts"
  by (induction scripts) auto

text \<open>
  Claim C2, as amended. In one crank cycle every unit is attempted, in order, whatever
  happened to the units before it: the failure of a unit (its compilation or its
  submission) is written to the console and the loop goes on, so the transactions
  submitted are those of all units that compile, each once, in the order of the units, and
  they do not depend on the answers of the chain. The run returns no result, and so no index
  of a failed unit.
\<close>

theorem crank_attempts_every_unit:
  "sent (crank_loop env accountMap scripts w)
     = sent w @ compiled_transactions (compilePython env) accountMap scripts
   \<and> sent (runCrankCycle env accountMap w)
     = sent w @ compiled_transactions (compilePython env) accountMap ACCUMULATOR_SCRIPTS
   \<and> ((\<forall>s \<in> set scripts. \<exists>b. compilePython env (script_file s) = Inr b) \<longrightarrow>
        length (sent (crank_loop env accountMap scripts w)) = length (sent w) + length scripts)"
  by (simp add: sent_crank_loop runCrankCycle_def length_compiled_transactions)

theorem crank_attempts_every_unit_witness:
  "length (sent (crank_loop rejecting_env demo_accounts ACCUMULATOR_SCRIPTS
              \<lparr>sent = [], console = []\<rparr>)) = 7"
proof -
  have h: "\<forall>s \<in> set ACCUMULATOR_SCRIPTS. \<exists>b. compilePython rejecting_env (script_file s) = Inr b"
    by (simp add: rejecting_env_def)
  have "length (sent (crank_loop rejecting_env demo_accounts ACCUMULATOR_SCRIPTS
                \<lparr>sent = [], console = []\<rparr>))
        = length (sent \<lparr>sent = [], console = []\<rparr>) + length ACCUMULATOR_SCRIPTS"
    using crank_attempts_every_unit [of rejecting_env demo_accounts ACCUMULATOR_SCRIPTS
        "\<lparr>sent = [], console = []\<rparr>"] h by blast
  then show ?thesis by (simp add: ACCUMULATOR_SCRIPTS_def)
qed

text \<open>
  The claim as worded fails: when the chain rejects every transaction, the first unit has
  failed and the six units after it are submitted all the same.
\<close>

theorem crank_continues_after_failure_counterexample:
  "runCrankCycle rejecting_env demo_accounts \<lparr>sent = [], console = []\<rparr> =
   \<lparr>sent =
    [\<lparr>keys = [(Some ''P'', False, False), (Some ''A'', False, True)],
        tx_data = [2, 1, 0, 1]\<rparr>,
     \<lparr>keys = [(Some ''A'', False, True)], tx_data = [2, 1, 0, 1]\<rparr>,
     \<lparr>keys = [(Some ''A'', False, True)], tx_data = [2, 1, 0, 1]\<rparr>,
     \<lparr>keys = [(Some ''A'', False, True)], tx_data = [2, 1, 0, 1]\<rparr>,
     \<lparr>keys = [(Some ''S'', False, False), (Some ''A'', False, True)],
        tx_data = [2, 1, 0, 1]\<rparr>,
     \<lparr>keys =
        [(Some ''S'', False, False), (Some ''U'', False, False),
         (Some ''A'', False, True)],
        tx_data = [2, 1, 0, 1]\<rparr>,
     \<lparr>keys = [(Some ''A'', False, True)], tx_data = [2, 1, 0, 1]\<rparr>],
    console =
      [Running, Started ''accum_v2_p1'',
       Failed ''accum_v2_p1'' SubmissionFailed, Started ''acc_sma'',
       Failed ''acc_sma'' SubmissionFailed, Started ''acc_vol_a'',
       Failed ''acc_vol_a'' SubmissionFailed, Started ''acc_mom'',
       Failed ''acc_mom'' SubmissionFailed, Started ''acc_ray_liq'',
       Failed ''acc_ray_liq'' SubmissionFailed, Started ''acc_dex_price'',
       Failed ''acc_dex_price'' SubmissionFailed, Started ''acc_spread'',
       Failed ''acc_spread'' SubmissionFailed]\<rparr>"
  by (simp add: runCrankCycle_def ACCUMULATOR_SCRIPTS_def crank_step_def executePythonScript_def
        script_transaction_def rejecting_env_def demo_accounts_def MODE_EXECUTE_BYTECODE_def Let_def)

subsection \<open>Unit partitioner\<close>

lemma pack_invariant:
  assumes "pack mb mc cur nodes = Inr units" and "well_formed mb mc cur"
  shows "(\<forall>u \<in> set units. well_formed mb mc u \<and> nodeSubset u \<noteq> [])
       \<and> concat (map nodeSubset units) = nodeSubset cur @ nodes"
  using assms
proof (induction nodes arbitrary: cur units)
  case Nil
  then show ?case by (auto split: if_splits)
next
  case (Cons n nodes)
  from Cons.prems(1) have fit: "estimatedCompiledBytes n \<le> mb" "estimatedComputeCost n \<le> mc"
    by (auto split: if_splits)
  show ?case
  proof (cases "estimatedBytes cur + estimatedCompiledBytes n \<le> mb
            \<and> estimatedCompute cur + estimatedComputeCost n \<le> mc")
    case True
    let ?cur = "\<lparr> nodeSubset = nodeSubset cur @ [n],
                 estimatedBytes = estimatedBytes cur + estimatedCompiledBytes n,
                 estimatedCompute = estimatedCompute cur + estimatedComputeCost n \<rparr>"
    have p: "pack mb mc ?cur nodes = Inr units"
      using Cons.prems(1) True fit by simp
    have w: "well_formed mb mc ?cur"
      using Cons.prems(2) True by (simp add: well_formed_def)
    from Cons.IH [OF p w] show ?thesis by simp
  next
    case False
    let ?new = "\<lparr> nodeSubset = [n], estimatedBytes = estimatedCompiledBytes n,
                     estimatedCompute = estimatedComputeCost n \<rparr>"
    from Cons.prems(1) False fit obtain us where
      p: "pack mb mc ?new nodes = Inr us" and u: "units = cur # us"
      by (auto split: sum.splits)
    have w: "well_formed mb mc ?new"
      using fit by (simp add: well_formed_def)
    have ne: "nodeSubset cur \<noteq> []"
    proof
      assume "nodeSubset cur = []"
      then have "estimatedBytes cur = 0" "estimatedCompute cur = 0"
        using Cons.prems(2) by (simp_all add: well_formed_def)
      then show False using False fit by simp
    qed
    from Cons.IH [OF p w] show ?thesis
      using u Cons.prems(2) ne by simp
  qed
qed

lemma pack_total:
  assumes "\<forall>n \<in> set nodes. estimatedCompiledBytes n \<le> mb \<and> estimatedComputeCost n \<le> mc"
  shows "\<exists>units. pack mb mc cur nodes = Inr units"
  using assms
proof (induction nodes arbitrary: cur)
  case Nil
  then show ?case by simp
next
  case (Cons n nodes)
  let ?more = "\<lparr> nodeSubset = nodeSubset cur @ [n],
                 estimatedBytes = estimatedBytes cur + estimatedCompiledBytes n,
                 estimatedCompute = estimatedCompute cur + estimatedComputeCost n \<rparr>"
  let ?new = "\<lparr> nodeSubset = [n], estimatedBytes = estimatedCompiledBytes n,
                     estimatedCompute = estimatedComputeCost n \<rparr>"
  from Cons.prems have rest:
    "\<forall>n \<in> set nodes. estimatedCompiledBytes n \<le> mb \<and> estimatedComputeCost n \<le> mc"
    by simp
  from Cons.IH [OF rest, of ?more] obtain us1 where 1: "pack mb mc ?more nodes = Inr us1" ..
  from Cons.IH [OF rest, of ?new] obtain us2 where 2: "pack mb mc ?new nodes = Inr us2" ..
  show ?case using Cons.prems 1 2 by simp
qed

lemma pack_fatal:
  assumes "\<exists>n \<in> set nodes. mb < estimatedCompiledBytes n \<or> mc < estimatedComputeCost n"
  shows "pack mb mc cur nodes = Inl NodeExceedsBudget"
  using assms
proof (induction nodes arbitrary: cur)
  case Nil
  then show ?case by simp
next
  case (Cons n nodes)
  show ?case
  proof (cases "mb < estimatedCompiledBytes n \<or> mc < estimatedComputeCost n")
    case True
    then show ?thesis by auto
  next
    case False
    with Cons.prems have rest:
      "\<exists>n \<in> set nodes. mb < estimatedCompiledBytes n \<or> mc < estimatedComputeCost n"
      by auto
    let ?more = "\<lparr> nodeSubset = nodeSubset cur @ [n],
                 estimatedBytes = estimatedBytes cur + estimatedCompiledBytes n,
                 estimatedCompute = estimatedCompute cur + estimatedComputeCost n \<rparr>"
    let ?new = "\<lparr> nodeSubset = [n], estimatedBytes = estimatedCompiledBytes n,
                     estimatedCompute = estimatedComputeCost n \<rparr>"
    show ?thesis
      using Cons.IH [OF rest, of ?more] Cons.IH [OF rest, of ?new] by simp
  qed
qed

text \<open>
  Claim C9. For every node list and every pair of limits, the units that the partition
  produces have estimated bytes and estimated compute within the limits (the estimates
  being the sums over the unit's nodes), no unit is empty, and the node subsets of the
  units, concatenated in order, are the original node list: no node is dropped,
  duplicated or reordered. The partition produces units exactly when every node fits the
  limits on its own, and fails with \<open>NodeExceedsBudget\<close> otherwise.
\<close>

theorem partition_budget_invariant:
  "(partition_nodes nodes (maxBytes, maxCompute) = Inr units \<longrightarrow>
      (\<forall>u \<in> set units.
          estimatedBytes u \<le> maxBytes \<and> estimatedCompute u \<le> maxCompute
        \<and> estimatedBytes u = sum_list (map estimatedCompiledBytes (nodeSubset u))
        \<and> estimatedCompute u = sum_list (map estimatedComputeCost (nodeSubset u))
        \<and> nodeSubset u \<noteq> [])
    \<and> concat (map nodeSubset units) = nodes)
   \<and> ((\<forall>n \<in> set nodes. estimatedCompiledBytes n \<le> maxBytes \<and> estimatedComputeCost n \<le> maxCompute)
        \<longrightarrow> (\<exists>us. partition_nodes nodes (maxBytes, maxCompute) = Inr us))
   \<and> ((\<exists>n \<in> set nodes. maxBytes < estimatedCompiledBytes n \<or> maxCompute < estimatedComputeCost n)
        \<longrightarrow> partition_nodes nodes (maxBytes, maxCompute) = Inl NodeExceedsBudget)"
proof -
  let ?e = "\<lparr> nodeSubset = [], estimatedBytes = 0, estimatedCompute = 0 \<rparr>"
  have w: "well_formed maxBytes maxCompute ?e" by (simp add: well_formed_def)
  have 1: "(\<forall>u \<in> set units.
          estimatedBytes u \<le> maxBytes \<and> estimatedCompute u \<le> maxCompute
        \<and> estimatedBytes u = sum_list (map estimatedCompiledBytes (nodeSubset u))
        \<and> estimatedCompute u = sum_list (map estimatedComputeCost (nodeSubset u))
        \<and> nodeSubset u \<noteq> [])
    \<and> concat (map nodeSubset units) = nodes"
    if "partition_nodes nodes (maxBytes, maxCompute) = Inr units"
  proof -
    from that have "pack maxBytes maxCompute ?e nodes = Inr units"
      by (simp add: partition_nodes_def)
    from pack_invariant [OF this w] show ?thesis
      unfolding well_formed_def by auto
  qed
  show ?thesis
    using 1 pack_total [of nodes maxBytes maxCompute ?e] pack_fatal [of nodes maxBytes maxCompute ?e]
    unfolding partition_nodes_def fst_conv snd_conv by blast
qed

theorem partition_budget_invariant_witness:
  "partition_nodes [\<lparr>node_id = 0, estimatedCompiledBytes = 400, estimatedComputeCost = 10\<rparr>,
      \<lparr>node_id = 1, estimatedCompiledBytes = 500, estimatedComputeCost = 10\<rparr>,
      \<lparr>node_id = 2, estimatedCompiledBytes = 300, estimatedComputeCost = 10\<rparr>] (900, 100)
    = Inr [\<lparr>nodeSubset = [\<lparr>node_id = 0, estimatedCompiledBytes = 400, estimatedComputeCost = 10\<rparr>,
                           \<lparr>node_id = 1, estimatedCompiledBytes = 500, estimatedComputeCost = 10\<rparr>],
             estimatedBytes = 900, estimatedCompute = 20\<rparr>,
           \<lparr>nodeSubset = [\<lparr>node_id = 2, estimatedCompiledBytes = 300, estimatedComputeCost = 10\<rparr>],
             estimatedBytes = 300, estimatedCompute = 10\<rparr>]
   \<and> concat (map nodeSubset
        [\<lparr>nodeSubset = [\<lparr>node_id = 0, estimatedCompiledBytes = 400, estimatedComputeCost = 10\<rparr>,
                           \<lparr>node_id = 1, estimatedCompiledBytes = 500, estimatedComputeCost = 10\<rparr>],
             estimatedBytes = 900, estimatedCompute = 20\<rparr>,
           \<lparr>nodeSubset = [\<lparr>node_id = 2, estimatedCompiledBytes = 300, estimatedComputeCost = 10\<rparr>],
             estimatedBytes = 300, estimatedCompute = 10\<rparr>])
     = [\<lparr>node_id = 0, estimatedCompiledBytes = 400, estimatedComputeCost = 10\<rparr>,
      \<lparr>node_id = 1, estimatedCompiledBytes = 500, estimatedComputeCost = 10\<rparr>,
      \<lparr>node_id = 2, estimatedCompiledBytes = 300, estimatedComputeCost = 10\<rparr>]"
proof -
  let ?nodes = "[\<lparr>node_id = 0, estimatedCompiledBytes = 400, estimatedComputeCost = 10\<rparr>,
      \<lparr>node_id = 1, estimatedCompiledBytes = 500, estimatedComputeCost = 10\<rparr>,
      \<lparr>node_id = 2, estimatedCompiledBytes = 300, estimatedComputeCost = 10\<rparr>]"
  let ?units = "[\<lparr>nodeSubset = [\<lparr>node_id = 0, estimatedCompiledBytes = 400, estimatedComputeCost = 10\<rparr>,
                           \<lparr>node_id = 1, estimatedCompiledBytes = 500, estimatedComputeCost = 10\<rparr>],
             estimatedBytes = 900, estimatedCompute = 20\<rparr>,
           \<lparr>nodeSubset = [\<lparr>node_id = 2, estimatedCompiledBytes = 300, estimatedComputeCost = 10\<rparr>],
             estimatedBytes = 300, estimatedCompute = 10\<rparr>]"
  have e: "partition_nodes ?nodes (900, 100) = Inr ?units"
    by (simp add: partition_nodes_def)
  have "concat (map nodeSubset ?units) = ?nodes"
    using partition_budget_invariant [of ?nodes 900 100 ?units] e by blast
  then show ?thesis using e by blast
qed

end

